theory Spec2Isabelle
  imports Main
begin

section \<open>JavaScript strings\<close>

text \<open>
  A JavaScript string is a sequence of UTF-16 code units, and every offset the program
  computes (\<^verbatim>\<open>match.index\<close>, \<^verbatim>\<open>indexOf\<close>, \<^verbatim>\<open>length\<close>) counts code units.
  A code unit is a natural number here; \<open>js\<close> turns an ASCII literal into such a string.
\<close>

type_synonym jstring = "nat list"

definition js :: "string \<Rightarrow> jstring" where
  "js s = map of_char s"

text \<open>
  The set matched by \<^verbatim>\<open>\s\<close> and stripped by \<^verbatim>\<open>trim()\<close>: WhiteSpace and
  LineTerminator of ECMA-262 (TAB, LF, VT, FF, CR, SP, NBSP, the Zs category, LS, PS, BOM).
\<close>

definition is_space :: "nat \<Rightarrow> bool" where
  "is_space c \<longleftrightarrow>
     c = 9 \<or> c = 10 \<or> c = 11 \<or> c = 12 \<or> c = 13 \<or> c = 32 \<or> c = 160 \<or> c = 5760 \<or>
     (8192 \<le> c \<and> c \<le> 8202) \<or> c = 8232 \<or> c = 8233 \<or> c = 8239 \<or> c = 8287 \<or>
     c = 12288 \<or> c = 65279"

text \<open>The word characters of \<^verbatim>\<open>\b\<close>: \<^verbatim>\<open>[A-Za-z0-9_]\<close>.\<close>

definition is_word :: "nat \<Rightarrow> bool" where
  "is_word c \<longleftrightarrow> (48 \<le> c \<and> c \<le> 57) \<or> (65 \<le> c \<and> c \<le> 90) \<or> c = 95 \<or> (97 \<le> c \<and> c \<le> 122)"

text \<open>
  \<^verbatim>\<open>String.prototype.toLowerCase\<close>. The program only ever looks for ASCII letters, digits,
  punctuation, dashes and white space in a lowered string, so the model is exact on the
  code units whose lower case contains an ASCII code unit (A to Z, U+0130 and the Kelvin
  sign U+212A) and leaves every other code unit in place, where JavaScript may put
  another non-ASCII letter.
\<close>

definition lower_unit :: "nat \<Rightarrow> jstring" where
  "lower_unit c =
     (if 65 \<le> c \<and> c \<le> 90 then [c + 32]
      else if c = 304 then [105, 775]
      else if c = 8490 then [107]
      else [c])"

definition toLowerCase :: "jstring \<Rightarrow> jstring" where
  "toLowerCase s = concat (map lower_unit s)"

definition trim :: "jstring \<Rightarrow> jstring" where
  "trim s = rev (dropWhile is_space (rev (dropWhile is_space s)))"

text \<open>\<^verbatim>\<open>s.startsWith(p)\<close> and \<^verbatim>\<open>s.includes(p)\<close>.\<close>

fun startsWith :: "jstring \<Rightarrow> jstring \<Rightarrow> bool" where
  "startsWith s [] = True"
| "startsWith [] (p # ps) = False"
| "startsWith (c # cs) (p # ps) = (c = p \<and> startsWith cs ps)"

fun includes_str :: "jstring \<Rightarrow> jstring \<Rightarrow> bool" where
  "includes_str [] p = (p = [])"
| "includes_str (c # cs) p = (startsWith (c # cs) p \<or> includes_str cs p)"

text \<open>\<^verbatim>\<open>s.split('\n')\<close>: the pieces between line feeds; never an empty array.\<close>

fun split_lines :: "jstring \<Rightarrow> jstring \<Rightarrow> jstring list" where
  "split_lines cur [] = [cur]"
| "split_lines cur (c # cs) =
     (if c = 10 then cur # split_lines [] cs else split_lines (cur @ [c]) cs)"

text \<open>Decimal rendering of a number inside a template literal.\<close>

fun digits_of :: "nat \<Rightarrow> nat \<Rightarrow> jstring" where
  "digits_of 0 n = []"
| "digits_of (Suc fuel) n =
     (if n < 10 then [48 + n] else digits_of fuel (n div 10) @ [48 + n mod 10])"

definition show_nat :: "nat \<Rightarrow> jstring" where
  "show_nat n = digits_of (Suc n) n"

section \<open>Regular expressions\<close>

text \<open>
  The patterns of the program use literals, character classes, sequence, alternation,
  \<^verbatim>\<open>?\<close>, \<^verbatim>\<open>*\<close>, \<^verbatim>\<open>+\<close> and \<^verbatim>\<open>*?\<close> on single characters or classes, \<^verbatim>\<open>\b\<close> and
  \<^verbatim>\<open>^\<close>. The matcher is the backtracking matcher of ECMA-262: from a position it
  yields the positions where a match can end, in the order in which backtracking tries
  them, so the head of the list is the match the engine reports.
\<close>

datatype citem = One nat | Space | NonSpace

datatype atom = Chr nat | Cls "citem list" | NCls "citem list"

datatype regex =
    Eps
  | Atom atom
  | Seq regex regex
  | Alt regex regex
  | Opt regex
  | Star atom
  | Plus atom
  | LazyStar atom
  | WordB
  | Bol

text \<open>
  Canonicalize of ECMA-262 for the \<^verbatim>\<open>i\<close> flag without the \<^verbatim>\<open>u\<close> flag. Every
  literal of the patterns is ASCII or a dash, and a non-ASCII code unit never
  canonicalizes to an ASCII one, so upper-casing a to z decides every comparison.
\<close>

definition canon :: "nat \<Rightarrow> nat" where
  "canon c = (if 97 \<le> c \<and> c \<le> 122 then c - 32 else c)"

definition unit_eq :: "bool \<Rightarrow> nat \<Rightarrow> nat \<Rightarrow> bool" where
  "unit_eq ic a c = (if ic then canon a = canon c else a = c)"

fun citem_ok :: "bool \<Rightarrow> citem \<Rightarrow> nat \<Rightarrow> bool" where
  "citem_ok ic (One a) c = unit_eq ic a c"
| "citem_ok ic Space c = is_space c"
| "citem_ok ic NonSpace c = (\<not> is_space c)"

fun atom_ok :: "bool \<Rightarrow> atom \<Rightarrow> nat \<Rightarrow> bool" where
  "atom_ok ic (Chr a) c = unit_eq ic a c"
| "atom_ok ic (Cls items) c = list_ex (\<lambda>it. citem_ok ic it c) items"
| "atom_ok ic (NCls items) c = (\<not> list_ex (\<lambda>it. citem_ok ic it c) items)"

text \<open>
  A position of the matcher: the code unit before it (None at offset 0) and the input
  that remains.
\<close>

type_synonym mstate = "nat option \<times> jstring"

fun star_greedy :: "(nat \<Rightarrow> bool) \<Rightarrow> mstate \<Rightarrow> mstate list" where
  "star_greedy p (prev, []) = [(prev, [])]"
| "star_greedy p (prev, c # cs) =
     (if p c then star_greedy p (Some c, cs) else []) @ [(prev, c # cs)]"

fun star_lazy :: "(nat \<Rightarrow> bool) \<Rightarrow> mstate \<Rightarrow> mstate list" where
  "star_lazy p (prev, []) = [(prev, [])]"
| "star_lazy p (prev, c # cs) =
     (prev, c # cs) # (if p c then star_lazy p (Some c, cs) else [])"

definition at_boundary :: "mstate \<Rightarrow> bool" where
  "at_boundary st =
     ((case fst st of None \<Rightarrow> False | Some c \<Rightarrow> is_word c) \<noteq>
      (case snd st of [] \<Rightarrow> False | c # _ \<Rightarrow> is_word c))"

fun ms :: "bool \<Rightarrow> regex \<Rightarrow> mstate \<Rightarrow> mstate list" where
  "ms ic Eps st = [st]"
| "ms ic (Atom a) st =
     (case snd st of [] \<Rightarrow> []
      | c # cs \<Rightarrow> if atom_ok ic a c then [(Some c, cs)] else [])"
| "ms ic (Seq r1 r2) st = concat (map (ms ic r2) (ms ic r1 st))"
| "ms ic (Alt r1 r2) st = ms ic r1 st @ ms ic r2 st"
| "ms ic (Opt r) st = ms ic r st @ [st]"
| "ms ic (Star a) st = star_greedy (atom_ok ic a) st"
| "ms ic (Plus a) st =
     (case snd st of [] \<Rightarrow> []
      | c # cs \<Rightarrow> if atom_ok ic a c then star_greedy (atom_ok ic a) (Some c, cs) else [])"
| "ms ic (LazyStar a) st = star_lazy (atom_ok ic a) st"
| "ms ic WordB st = (if at_boundary st then [st] else [])"
| "ms ic Bol st = (if fst st = None then [st] else [])"

text \<open>
  The search of \<^verbatim>\<open>exec\<close>, \<^verbatim>\<open>test\<close> and \<^verbatim>\<open>match\<close>: try offset \<open>i\<close>, then \<open>i + 1\<close>, up
  to and including the end of the input; report the offset and the end of the match.
\<close>

fun search :: "bool \<Rightarrow> regex \<Rightarrow> nat option \<Rightarrow> jstring \<Rightarrow> nat \<Rightarrow> (nat \<times> mstate) option" where
  "search ic r prev [] i =
     (case ms ic r (prev, []) of [] \<Rightarrow> None | st # _ \<Rightarrow> Some (i, st))"
| "search ic r prev (c # cs) i =
     (case ms ic r (prev, c # cs) of
        [] \<Rightarrow> search ic r (Some c) cs (Suc i)
      | st # _ \<Rightarrow> Some (i, st))"

text \<open>A RegExp object: the pattern and its \<^verbatim>\<open>i\<close> flag.\<close>

type_synonym RegExp = "regex \<times> bool"

text \<open>
  \<^verbatim>\<open>re.exec(s)\<close> with \<^verbatim>\<open>lastIndex\<close> at the position \<open>st\<close> of \<open>s\<close> (the offset of a
  position is the length of \<open>s\<close> minus what remains), and \<^verbatim>\<open>match.index\<close> of an
  \<^verbatim>\<open>exec\<close> from offset 0.
\<close>

definition search_from :: "jstring \<Rightarrow> RegExp \<Rightarrow> mstate \<Rightarrow> (nat \<times> mstate) option" where
  "search_from s re st = search (snd re) (fst re) (fst st) (snd st) (length s - length (snd st))"

definition exec_index :: "RegExp \<Rightarrow> jstring \<Rightarrow> nat option" where
  "exec_index re s = map_option fst (search_from s re (None, s))"

definition test :: "RegExp \<Rightarrow> jstring \<Rightarrow> bool" where
  "test re s = (exec_index re s \<noteq> None)"

text \<open>
  Pattern syntax: a literal, a sequence, an alternation, words separated by \<^verbatim>\<open>\s+\<close>
  (\<open>phrase\<close>), \<^verbatim>\<open>\s+\<close> and \<^verbatim>\<open>\s*\<close>.
\<close>

definition lit :: "string \<Rightarrow> regex" where
  "lit s = foldr (\<lambda>c r. Seq (Atom (Chr (of_char c))) r) s Eps"

definition cat :: "regex list \<Rightarrow> regex" where
  "cat rs = foldr Seq rs Eps"

fun alts :: "regex list \<Rightarrow> regex" where
  "alts [] = Eps"
| "alts [r] = r"
| "alts (r # rs) = Alt r (alts rs)"

fun phrase :: "string list \<Rightarrow> regex" where
  "phrase [] = Eps"
| "phrase [w] = lit w"
| "phrase (w # ws) = Seq (lit w) (Seq (Plus (Cls [Space])) (phrase ws))"

definition sp1 :: regex where
  "sp1 = Plus (Cls [Space])"

definition sp0 :: regex where
  "sp0 = Star (Cls [Space])"

section \<open>The rule validator\<close>

subsection \<open>countWords\<close>

text \<open>
  \<^verbatim>\<open>split(/\s+/)\<close>: SplitMatcher succeeds at an offset exactly when a white-space code
  unit is there, and then consumes the whole run; the piece before the run is pushed and
  the scan resumes after it. The piece after the last run is pushed at the end, so the
  empty string yields one empty piece.
\<close>

function split_ws :: "jstring \<Rightarrow> jstring \<Rightarrow> jstring list" where
  "split_ws cur [] = [cur]"
| "split_ws cur (c # cs) =
     (if is_space c then cur # split_ws [] (dropWhile is_space cs)
      else split_ws (cur @ [c]) cs)"
  by pat_completeness auto
termination
  by (relation "measure (\<lambda>(cur, s). length s)")
     (auto simp: le_imp_less_Suc length_dropWhile_le)

definition countWords :: "jstring \<Rightarrow> nat" where
  "countWords text = length (filter (\<lambda>w. length w > 0) (split_ws [] (trim text)))"

text \<open>
  The specification's reading of a word count: split the text on maximal runs of white
  space and keep the tokens that are not empty.
\<close>

function ws_pieces :: "jstring \<Rightarrow> jstring list" where
  "ws_pieces s =
     (case dropWhile (\<lambda>c. \<not> is_space c) s of
        [] \<Rightarrow> [takeWhile (\<lambda>c. \<not> is_space c) s]
      | r # rs \<Rightarrow> takeWhile (\<lambda>c. \<not> is_space c) s # ws_pieces (dropWhile is_space rs))"
  by pat_completeness auto
termination
proof (relation "measure length", goal_cases)
  case 1
  show ?case by simp
next
  case (2 s r rs)
  have "length (dropWhile is_space rs) \<le> length rs"
    by (rule length_dropWhile_le)
  moreover have "length (r # rs) \<le> length s"
    unfolding 2 [symmetric] by (rule length_dropWhile_le)
  ultimately show ?case by simp
qed

definition spec_token_count :: "jstring \<Rightarrow> nat" where
  "spec_token_count s = length (filter (\<lambda>t. t \<noteq> []) (ws_pieces s))"

text \<open>The number of maximal runs of code units that are not white space.\<close>

fun runs :: "bool \<Rightarrow> jstring \<Rightarrow> nat" where
  "runs inside [] = 0"
| "runs inside (c # cs) =
     (if is_space c then runs False cs
      else (if inside then 0 else 1) + runs True cs)"

subsection \<open>Data model\<close>

datatype EmailAngle = Timing | Challenge | Outcome

fun angle_str :: "EmailAngle \<Rightarrow> jstring" where
  "angle_str Timing = js ''timing''"
| "angle_str Challenge = js ''challenge''"
| "angle_str Outcome = js ''outcome''"

record EmailVariant =
  variant_id :: jstring
  email_number :: nat
  subject_line :: jstring
  body :: jstring
  word_count :: nat
  angle :: EmailAngle

text \<open>
  \<^verbatim>\<open>checks\<close> is a \<^verbatim>\<open>Record<string, boolean>\<close>: an object whose keys keep their
  insertion order, which \<^verbatim>\<open>Object.entries\<close> reads back. Assigning to a key that
  exists replaces its value in place.
\<close>

record ValidationResult =
  passed :: bool
  checks :: "(jstring \<times> bool) list"
  failures :: "jstring list"
  suggestions :: "jstring list"

fun obj_set :: "jstring \<Rightarrow> bool \<Rightarrow> (jstring \<times> bool) list \<Rightarrow> (jstring \<times> bool) list" where
  "obj_set k v [] = [(k, v)]"
| "obj_set k v (p # ps) = (if fst p = k then (k, v) # ps else p # obj_set k v ps)"

subsection \<open>Helper checks\<close>

definition uncontractedPatterns :: "RegExp list" where
  "uncontractedPatterns =
     map (\<lambda>w. (cat [WordB, lit w, WordB], True))
       [''I am'', ''I have'', ''You are'', ''We are'', ''They are'', ''It is'', ''That is'',
        ''What is'', ''There is'', ''Here is'', ''Do not'', ''Can not'', ''Will not'',
        ''Would not'', ''Could not'', ''Should not'']"

definition hasContractionIssues :: "jstring \<Rightarrow> bool" where
  "hasContractionIssues text = list_ex (\<lambda>pattern. test pattern text) uncontractedPatterns"

text \<open>\<^verbatim>\<open>500,?000\+?\s+clinicians\<close>, the scale claim shared by five of the six introductions.\<close>

definition scale_claim :: regex where
  "scale_claim = cat [lit ''500'', Opt (lit '',''), lit ''000'', Opt (lit ''+''), sp1, lit ''clinicians'']"

text \<open>The class of the three dashes: em dash U+2014, en dash U+2013, hyphen.\<close>

definition dashes :: "citem list" where
  "dashes = [One 8212, One 8211, One 45]"

definition validIntros :: "RegExp list" where
  "validIntros =
     [(cat [phrase [''klas'', ''research''], Atom (Cls dashes), phrase [''which'', ''surveyed''],
            sp1, scale_claim], True),
      (cat [phrase [''klas'', ''research''], Opt (lit '',''), sp1, phrase [''which'', ''surveyed''],
            sp1, scale_claim], True),
      (cat [phrase [''according'', ''to'', ''klas'', ''research''], Atom (Cls dashes),
            phrase [''the'', ''healthcare'']], True),
      (cat [phrase [''surveyed'', ''by'', ''klas'', ''research''], sp0, lit ''('', scale_claim], True),
      (cat [phrase [''from'', ''klas'', ''research''], sp0, lit ''('', scale_claim], True),
      (cat [phrase [''from'', ''klas'', ''research.''], sp1,
            phrase [''according'', ''to'', ''their'', ''study'', ''of''], sp1, scale_claim], True)]"

text \<open>\<^verbatim>\<open>^[^.]*\<close> and then the shorthand: the shorthand before the first full stop.\<close>

definition badPatterns :: "RegExp list" where
  "badPatterns =
     map (\<lambda>ws. (cat [Bol, Star (NCls [One 46]), phrase ws], True))
       [[''klas'', ''data'', ''shows''],
        [''the'', ''klas'', ''study''],
        [''klas'', ''shows''],
        [''klas'', ''research'', ''shows'']]"

definition hasValidKlasIntro :: "jstring \<Rightarrow> bool" where
  "hasValidKlasIntro text =
     (let lowerText = toLowerCase text in
      if \<not> includes_str lowerText (js ''klas'') then True
      else
        let hasProperIntro = list_ex (\<lambda>pattern. test pattern text) validIntros in
        if \<not> hasProperIntro then \<not> list_ex (\<lambda>pattern. test pattern text) badPatterns
        else hasProperIntro)"

definition classPatterns :: "RegExp list" where
  "classPatterns =
     [(cat [WordB, lit ''about class'', Atom (Cls (dashes @ [One 44, One 46, Space]))], True),
      (cat [WordB, lit ''class'', Plus (Cls [One 8212, One 8211, One 45, Space]), lit ''a'', sp1,
            lit ''virtual''], True),
      (cat [WordB, phrase [''class'', ''is'', ''built'']], True),
      (cat [WordB, lit ''using class'', WordB], True),
      (cat [WordB, phrase [''class'', ''helps''], WordB], True),
      (cat [WordB, phrase [''class'', ''provides''], WordB], True),
      (cat [WordB, phrase [''class'', ''gives''], WordB], True),
      (cat [WordB, phrase [''class'', ''lets''], WordB], True),
      (cat [WordB, phrase [''class'', ''turns''], WordB], True),
      (cat [WordB, phrase [''class'', ''adds''], WordB], True),
      (cat [WordB, lit ''with class'', WordB], True)]"

text \<open>
  The loop over \<open>classPatterns\<close>: \<open>classPosition\<close> starts at -1 and takes the
  \<^verbatim>\<open>match.index\<close> of a pattern when it is the first or a smaller one.
\<close>

definition classPosition_step :: "jstring \<Rightarrow> int \<Rightarrow> RegExp \<Rightarrow> int" where
  "classPosition_step text classPosition pattern =
     (case exec_index pattern text of
        None \<Rightarrow> classPosition
      | Some idx \<Rightarrow>
          if classPosition = -1 \<or> int idx < classPosition then int idx else classPosition)"

definition classPosition_of :: "jstring \<Rightarrow> int" where
  "classPosition_of text = foldl (classPosition_step text) (-1) classPatterns"

definition wePattern :: RegExp where
  "wePattern =
     (cat [WordB,
           alts [lit ''we'', lit (''we'' @ [CHR 0x27] @ ''re''), lit (''we'' @ [CHR 0x27] @ ''ve''),
                 lit (''we'' @ [CHR 0x27] @ ''ll''), lit ''our''],
           WordB], True)"

text \<open>
  The \<^verbatim>\<open>while ((match = wePattern.exec(lowerText)) !== null)\<close> loop. The pattern has
  the \<^verbatim>\<open>g\<close> flag, so each \<^verbatim>\<open>exec\<close> resumes where the previous match ended. The loop
  ends because a match of \<open>wePattern\<close> is never empty, which the lemmas below establish
  for the termination proof.
\<close>

lemma star_greedy_shorter:
  "st' \<in> set (star_greedy p st) \<Longrightarrow> length (snd st') \<le> length (snd st)"
  by (induction p st rule: star_greedy.induct) (auto split: if_splits)

lemma star_lazy_shorter:
  "st' \<in> set (star_lazy p st) \<Longrightarrow> length (snd st') \<le> length (snd st)"
  by (induction p st rule: star_lazy.induct) (auto split: if_splits)

lemma ms_shorter: "st' \<in> set (ms ic r st) \<Longrightarrow> length (snd st') \<le> length (snd st)"
proof (induction r arbitrary: st st')
  case Eps
  then show ?case by simp
next
  case (Atom a)
  then show ?case by (cases "snd st") (auto split: if_splits)
next
  case (Seq r1 r2)
  from Seq.prems obtain m where "m \<in> set (ms ic r1 st)" "st' \<in> set (ms ic r2 m)" by auto
  then show ?case using Seq.IH by (blast intro: order_trans)
next
  case (Alt r1 r2)
  from Alt.prems have "st' \<in> set (ms ic r1 st) \<or> st' \<in> set (ms ic r2 st)" by simp
  then show ?case using Alt.IH by blast
next
  case (Opt r)
  from Opt.prems have "st' \<in> set (ms ic r st) \<or> st' = st" by auto
  then show ?case using Opt.IH by blast
next
  case (Star a)
  then show ?case by (auto dest: star_greedy_shorter)
next
  case (Plus a)
  then show ?case
    by (cases "snd st") (auto split: if_splits dest!: star_greedy_shorter)
next
  case (LazyStar a)
  then show ?case by (auto dest: star_lazy_shorter)
next
  case WordB
  then show ?case by (auto split: if_splits)
next
  case Bol
  then show ?case by (auto split: if_splits)
qed


lemma ms_lit_consumes:
  "st' \<in> set (ms ic (lit w) st) \<Longrightarrow> length (snd st') + length w = length (snd st)"
proof (induction w arbitrary: st)
  case Nil
  then show ?case by (simp add: lit_def)
next
  case (Cons a w)
  from Cons.prems obtain m where m: "m \<in> set (ms ic (Atom (Chr (of_char a))) st)"
      and r: "st' \<in> set (ms ic (lit w) m)"
    by (auto simp: lit_def)
  from m have "length (snd m) + 1 = length (snd st)"
    by (cases "snd st") (auto split: if_splits)
  with Cons.IH [OF r] show ?case by simp
qed


lemma ms_SeqD:
  "st' \<in> set (ms ic (Seq r1 r2) st) \<Longrightarrow> \<exists>m \<in> set (ms ic r1 st). st' \<in> set (ms ic r2 m)"
  by auto

lemma ms_AltD:
  "st' \<in> set (ms ic (Alt r1 r2) st) \<Longrightarrow> st' \<in> set (ms ic r1 st) \<or> st' \<in> set (ms ic r2 st)"
  by auto

lemma we_words_consume:
  assumes "m \<in> set (ms ic (alts [lit ''we'', lit (''we'' @ [CHR 0x27] @ ''re''),
             lit (''we'' @ [CHR 0x27] @ ''ve''), lit (''we'' @ [CHR 0x27] @ ''ll''), lit ''our'']) st)"
  shows "length (snd m) < length (snd st)"
proof -
  from assms have "\<exists>w. w \<noteq> [] \<and> m \<in> set (ms ic (lit w) st)"
    unfolding alts.simps by (blast dest!: ms_AltD)
  then obtain w where "w \<noteq> []" and "m \<in> set (ms ic (lit w) st)" by blast
  then show ?thesis by (cases w) (auto dest: ms_lit_consumes)
qed

lemma wePattern_progress:
  assumes "st' \<in> set (ms (snd wePattern) (fst wePattern) st)"
  shows "length (snd st') < length (snd st)"
proof -
  let ?A = "alts [lit ''we'', lit (''we'' @ [CHR 0x27] @ ''re''),
             lit (''we'' @ [CHR 0x27] @ ''ve''), lit (''we'' @ [CHR 0x27] @ ''ll''), lit ''our'']"
  from assms have "st' \<in> set (ms True (Seq WordB (Seq ?A (Seq WordB Eps))) st)"
    by (simp only: wePattern_def cat_def foldr.simps o_apply id_apply fst_conv snd_conv)
  then obtain m1 where m1: "m1 \<in> set (ms True WordB st)"
      and "st' \<in> set (ms True (Seq ?A (Seq WordB Eps)) m1)"
    by (blast dest: ms_SeqD)
  then obtain m2 where m2: "m2 \<in> set (ms True ?A m1)"
      and e: "st' \<in> set (ms True (Seq WordB Eps) m2)"
    by (blast dest: ms_SeqD)
  from m1 have "length (snd m1) \<le> length (snd st)" by (rule ms_shorter)
  moreover from m2 have "length (snd m2) < length (snd m1)" by (rule we_words_consume)
  moreover from e have "length (snd st') \<le> length (snd m2)" by (rule ms_shorter)
  ultimately show ?thesis by simp
qed

lemma search_found:
  "search ic r prev rest i = Some (idx, st') \<Longrightarrow>
   \<exists>st. length (snd st) \<le> length rest \<and> st' \<in> set (ms ic r st)"
proof (induction rest arbitrary: prev i)
  case Nil
  then have "st' \<in> set (ms ic r (prev, []))"
    by (cases "ms ic r (prev, [])") auto
  then show ?case by (intro exI [of _ "(prev, [])"]) simp
next
  case (Cons c cs)
  show ?case
  proof (cases "ms ic r (prev, c # cs)")
    case Nil
    with Cons.prems have "search ic r (Some c) cs (Suc i) = Some (idx, st')" by simp
    from Cons.IH [OF this] obtain st where "length (snd st) \<le> length cs"
        and "st' \<in> set (ms ic r st)" by blast
    then show ?thesis by (intro exI [of _ st]) simp
  next
    case (Cons a list)
    with Cons.prems have "st' \<in> set (ms ic r (prev, c # cs))" by auto
    then show ?thesis by (intro exI [of _ "(prev, c # cs)"]) simp
  qed
qed

function weLoop :: "jstring \<Rightarrow> int \<Rightarrow> mstate \<Rightarrow> bool" where
  "weLoop lowerText classPosition st =
     (case search_from lowerText wePattern st of
        None \<Rightarrow> True
      | Some (idx, st') \<Rightarrow>
          if classPosition = -1 \<or> int idx < classPosition then False
          else weLoop lowerText classPosition st')"
  by pat_completeness auto
termination
proof (relation "measure (\<lambda>(s, cp, st). length (snd st))", goal_cases)
  case 1
  show ?case by simp
next
  case (2 lowerText classPosition st x2 idx st')
  then obtain st0 where "length (snd st0) \<le> length (snd st)"
      and "st' \<in> set (ms (snd wePattern) (fst wePattern) st0)"
    unfolding search_from_def by (blast dest: search_found)
  then show ?case by (auto dest: wePattern_progress)
qed

declare weLoop.simps [simp del]

definition hasValidWeTiming :: "jstring \<Rightarrow> bool" where
  "hasValidWeTiming text =
     (let lowerText = toLowerCase text;
          classPosition = classPosition_of text
      in weLoop lowerText classPosition (None, lowerText))"

definition weekday :: regex where
  "weekday = alts [lit ''monday'', lit ''tuesday'', lit ''wednesday'', lit ''thursday'', lit ''friday'']"

definition apos :: string where
  "apos = [CHR 0x27]"

definition bannedCtaPatterns :: "RegExp list" where
  "bannedCtaPatterns =
     [(cat [lit ''20'', sp0, lit ''minute'', Opt (lit ''s'')], True),
      (cat [lit ''15'', sp0, lit ''minute'', Opt (lit ''s'')], True),
      (cat [lit ''does'', sp1, weekday, sp1, lit ''work''], True),
      (cat [lit ''would'', sp1, weekday, sp1, lit ''work''], True),
      (phrase [''can'', ''we'', ''schedule''], True),
      (phrase [''i'', ''genuinely'', ''don'' @ apos @ ''t'', ''know'', ''if'', ''class'', ''is'', ''right''], True),
      (phrase [''happy'', ''to'', ''share'', ''over'', ''email'', ''if'', ''easier''], True),
      (phrase [''no'', ''meeting'', ''required''], True)]"

definition hasValidCta :: "jstring \<Rightarrow> bool" where
  "hasValidCta text =
     (let lowerText = toLowerCase text
      in \<not> list_ex (\<lambda>pattern. test pattern lowerText) bannedCtaPatterns)"

definition warmthPatterns :: "RegExp list" where
  "warmthPatterns =
     [(cat [phrase [''even'', ''if''], sp1, Opt (cat [lit ''the'', sp1]),
            phrase [''timing'', ''isn'' @ apos @ ''t'', ''right'']], True),
      (phrase [''even'', ''if'', ''class'', ''isn'' @ apos @ ''t'', ''the'', ''right'', ''solution''], True),
      (phrase [''even'', ''if'', ''now'', ''isn'' @ apos @ ''t'', ''the'', ''right'', ''time''], True),
      (phrase [''i'', ''hope'', ''this'', ''data'', ''is'', ''useful''], True),
      (phrase [''i'', ''hope'', ''these'', ''findings'', ''are'', ''useful''], True),
      (phrase [''the'', ''klas'', ''research'', ''might'', ''be'', ''useful''], True),
      (phrase [''this'', ''research'', ''might'', ''be'', ''useful''], True),
      (phrase [''i'', ''appreciate'', ''you'' @ apos @ ''re'', ''managing'', ''a'', ''lot''], True),
      (phrase [''these'', ''findings'', ''will'', ''still'', ''be'', ''relevant''], True)]"

definition hasWarmthPhrase :: "jstring \<Rightarrow> nat \<Rightarrow> bool" where
  "hasWarmthPhrase text emailNumber =
     (if emailNumber \<noteq> 3 then True
      else
        let lowerText = toLowerCase text
        in list_ex (\<lambda>pattern. test pattern lowerText) warmthPatterns)"

definition dq :: jstring where
  "dq = [34]"

definition sq :: jstring where
  "sq = [39]"

definition emdash :: jstring where
  "emdash = [8212]"

definition bannedPhrases :: "(RegExp \<times> jstring) list" where
  "bannedPhrases =
     [((phrase [''competency'', ''verification''], True),
       js ''Use '' @ dq @ js ''embedded assessments'' @ dq @ js '' instead of '' @ dq @
       js ''competency verification'' @ dq),
      ((cat [lit ''hands'', Opt (lit ''-''), phrase [''on'', ''ehr'', ''practice'', ''environment'']], True),
       js ''Class is not an EHR simulator''),
      ((phrase [''single'', ''dashboard'', ''across'', ''your'', ''entire'', ''network''], True),
       js ''Overstated feature claim''),
      ((phrase [''no'', ''new'', ''infrastructure'', ''to'', ''learn''], True),
       js ''Users need Class training''),
      ((phrase [''deployment'', ''layer''], True), js ''Confusing terminology''),
      ((phrase [''overwhelming'', ''the'', ''education'', ''infrastructure''], True),
       js ''Vague wording''),
      ((phrase [''one'', ''more'', ''thought''], True), js ''Feels pestering''),
      ((phrase [''i'', ''keep'', ''wondering''], True), js ''Forced personalization''),
      ((cat [phrase [''january'', ''session''], Opt (lit ''s'')], True),
       js ''Too immediate timing reference''),
      ((cat [lit ''run'', Opt (lit ''s''), sp1, phrase [''on'', ''your'', ''existing'', ''zoom'']], True),
       js ''Use '' @ dq @ js ''built for Zoom'' @ dq @ js '' instead'')]"

definition hasBannedPhrases :: "jstring \<Rightarrow> jstring list" where
  "hasBannedPhrases text = map snd (filter (\<lambda>bp. test (fst bp) text) bannedPhrases)"

definition hasValidSignature :: "jstring \<Rightarrow> bool" where
  "hasValidSignature text =
     (let lines = split_lines [] (trim text);
          lastLine = trim (last lines)
      in toLowerCase lastLine = js ''dalton'')"

subsection \<open>validateEmail\<close>

text \<open>
  Every check of \<^verbatim>\<open>validateEmail\<close> has one shape: store the outcome under its key and,
  when it is false, push one failure and the suggested fixes. The accumulator holds
  \<^verbatim>\<open>checks\<close>, \<^verbatim>\<open>failures\<close> and \<^verbatim>\<open>suggestions\<close>.
\<close>

type_synonym vacc = "(jstring \<times> bool) list \<times> jstring list \<times> jstring list"

definition run_check :: "jstring \<Rightarrow> bool \<Rightarrow> jstring \<Rightarrow> jstring list \<Rightarrow> vacc \<Rightarrow> vacc" where
  "run_check key ok failure fixes acc =
     (obj_set key ok (fst acc),
      if ok then fst (snd acc) else fst (snd acc) @ [failure],
      if ok then snd (snd acc) else snd (snd acc) @ fixes)"

definition word_count_fix :: "nat \<Rightarrow> jstring" where
  "word_count_fix wordCount =
     (if wordCount < 150
      then js ''Add '' @ show_nat (150 - wordCount) @ js '' more words to meet minimum''
      else js ''Remove '' @ show_nat (wordCount - 200) @ js '' words to meet maximum'')"

definition validateEmail :: "EmailVariant \<Rightarrow> ValidationResult" where
  "validateEmail email =
     (let wordCount = countWords (body email);
          a1 = run_check (js ''word_count_valid'') (wordCount \<ge> 150 \<and> wordCount \<le> 200)
                 (js ''Word count '' @ show_nat wordCount @ js '' outside range 150-200'')
                 [word_count_fix wordCount] ([], [], []);
          a2 = run_check (js ''contractions_used'') (\<not> hasContractionIssues (body email))
                 (js ''Uncontracted phrases detected (e.g., '' @ dq @ js ''I am'' @ dq @
                  js '' instead of '' @ dq @ js ''I'' @ sq @ js ''m'' @ dq @ js '')'')
                 [js ''Use contractions: I'' @ sq @ js ''m, you'' @ sq @ js ''re, that'' @ sq @
                  js ''s, it'' @ sq @ js ''s, can'' @ sq @ js ''t, won'' @ sq @ js ''t, don'' @ sq @
                  js ''t''] a1;
          a3 = run_check (js ''klas_intro_valid'') (hasValidKlasIntro (body email))
                 (js ''KLAS mentioned without proper introduction'')
                 [js ''First KLAS mention must include: '' @ dq @ js ''KLAS Research'' @ emdash @
                  js ''which surveyed 500,000+ clinicians across 300 healthcare organizations'' @
                  emdash @ js ''found that...'' @ dq] a2;
          a4 = run_check (js ''we_timing_valid'') (hasValidWeTiming (body email))
                 (dq @ js ''We'' @ dq @ js '' used before Class was introduced'')
                 [js ''Introduce Class by name before using '' @ dq @ js ''we'' @ dq @ js '': '' @
                  dq @ js ''That'' @ sq @ js ''s why I'' @ sq @ js ''m reaching out about Class'' @
                  emdash @ js ''a virtual classroom platform. The challenge we hear...'' @ dq] a3;
          a5 = run_check (js ''cta_valid'') (hasValidCta (body email))
                 (js ''CTA contains banned patterns (e.g., '' @ dq @ js ''20 minutes'' @ dq @
                  js '', specific day/time)'')
                 [js ''Use conversational CTAs: '' @ dq @
                  js ''Is it worth a quick conversation? Let me know when works best for you.'' @
                  dq] a4;
          a6 = run_check (js ''warmth_phrase_valid'') (hasWarmthPhrase (body email) (email_number email))
                 (js ''Email 3 missing warmth phrase'')
                 [js ''Add warmth phrase: '' @ dq @ js ''Even if the timing isn'' @ sq @
                  js ''t right over the next few months, I hope these findings are useful context for your planning.'' @
                  dq] a5;
          bannedFound = hasBannedPhrases (body email);
          a7 = run_check (js ''no_banned_phrases'') (length bannedFound = 0)
                 (js ''Banned phrases found: '' @ show_nat (length bannedFound))
                 bannedFound a6;
          a8 = run_check (js ''signature_valid'') (hasValidSignature (body email))
                 (js ''Email not signed '' @ dq @ js ''Dalton'' @ dq @ js '' on last line'')
                 [js ''End email with just '' @ dq @ js ''Dalton'' @ dq @ js '' (first name only)''] a7;
          a9 = run_check (js ''subject_valid'')
                 (\<not> startsWith (toLowerCase (subject_line email)) (js ''re:''))
                 (js ''Subject line starts with '' @ dq @ js ''Re:'' @ dq)
                 [js ''Each email needs a unique subject line, no '' @ dq @ js ''Re:'' @ dq @
                  js '' prefix''] a8
      in \<lparr>passed = (length (fst (snd a9)) = 0),
          checks = fst a9,
          failures = fst (snd a9),
          suggestions = snd (snd a9)\<rparr>)"

subsection \<open>validateSequence\<close>

text \<open>\<^verbatim>\<open>xs.join(sep)\<close>.\<close>

fun join :: "jstring \<Rightarrow> jstring list \<Rightarrow> jstring" where
  "join sep [] = []"
| "join sep [x] = x"
| "join sep (x # xs) = x @ sep @ join sep xs"

text \<open>
  \<^verbatim>\<open>actualAngles.every((a, i) => a === expectedAngles[i])\<close>: past the end of
  \<open>expectedAngles\<close> the comparison is with \<^verbatim>\<open>undefined\<close> and fails; an array shorter
  than \<open>expectedAngles\<close> is only compared on its own length.
\<close>

fun every_angle :: "EmailAngle list \<Rightarrow> EmailAngle list \<Rightarrow> bool" where
  "every_angle [] expected = True"
| "every_angle (a # as) [] = False"
| "every_angle (a # as) (e # es) = (a = e \<and> every_angle as es)"

definition expectedAngles :: "EmailAngle list" where
  "expectedAngles = [Timing, Challenge, Outcome]"

text \<open>The body of the \<^verbatim>\<open>for (const email of emails)\<close> loop.\<close>

definition sequence_step :: "vacc \<Rightarrow> EmailVariant \<Rightarrow> vacc" where
  "sequence_step acc email =
     (let result = validateEmail email;
          n = show_nat (email_number email);
          allChecks = foldl (\<lambda>cs kv. obj_set (js ''E'' @ n @ js ''_'' @ fst kv) (snd kv) cs)
                        (fst acc) (checks result)
      in if \<not> passed result
         then (allChecks,
               fst (snd acc) @ [js ''Email '' @ n @ js '': '' @ join (js ''; '') (failures result)],
               snd (snd acc) @ map (\<lambda>s. js ''E'' @ n @ js '': '' @ s) (suggestions result))
         else (allChecks, fst (snd acc), snd (snd acc)))"

definition angle_failure :: "EmailAngle list \<Rightarrow> jstring" where
  "angle_failure actualAngles =
     js ''Angle order incorrect: expected timing->challenge->outcome, got '' @
     join (js ''->'') (map angle_str actualAngles)"

definition validateSequence :: "EmailVariant list \<Rightarrow> ValidationResult" where
  "validateSequence emails =
     (let a0 = (if length emails \<noteq> 3
                then ([], [js ''Sequence has '' @ show_nat (length emails) @ js '' emails, expected 3''],
                      [js ''Generate exactly 3 emails per sequence''])
                else ([], [], []));
          actualAngles = map angle emails;
          angleOrderValid = every_angle actualAngles expectedAngles;
          a1 = (obj_set (js ''angle_order_valid'') angleOrderValid (fst a0),
                if \<not> angleOrderValid then fst (snd a0) @ [angle_failure actualAngles]
                else fst (snd a0),
                if \<not> angleOrderValid
                then snd (snd a0) @
                     [js ''Emails must follow angle order: E1=timing, E2=challenge, E3=outcome'']
                else snd (snd a0));
          a2 = foldl sequence_step a1 emails
      in \<lparr>passed = (length (fst (snd a2)) = 0),
          checks = fst a2,
          failures = fst (snd a2),
          suggestions = snd (snd a2)\<rparr>)"

subsection \<open>The nine checks, by key and by value\<close>

definition check_keys :: "jstring list" where
  "check_keys = map js [''word_count_valid'', ''contractions_used'', ''klas_intro_valid'',
     ''we_timing_valid'', ''cta_valid'', ''warmth_phrase_valid'', ''no_banned_phrases'',
     ''signature_valid'', ''subject_valid'']"

definition check_values :: "EmailVariant \<Rightarrow> bool list" where
  "check_values email =
     [150 \<le> countWords (body email) \<and> countWords (body email) \<le> 200,
      \<not> hasContractionIssues (body email),
      hasValidKlasIntro (body email),
      hasValidWeTiming (body email),
      hasValidCta (body email),
      hasWarmthPhrase (body email) (email_number email),
      length (hasBannedPhrases (body email)) = 0,
      hasValidSignature (body email),
      \<not> startsWith (toLowerCase (subject_line email)) (js ''re:'')]"

subsection \<open>Example emails\<close>

definition short_email :: EmailVariant where
  "short_email = \<lparr>variant_id = js ''001-A-E1'', email_number = 1, subject_line = js ''Quick question'',
     body = js ''Hello there'', word_count = 2, angle = Timing\<rparr>"

definition padded_body :: jstring where
  "padded_body = concat (replicate 150 (js ''a ''))"

definition mislabelled_email :: EmailVariant where
  "mislabelled_email = \<lparr>variant_id = js ''001-A-E1'', email_number = 1,
     subject_line = js ''Quick question'', body = padded_body, word_count = 0, angle = Timing\<rparr>"

subsection \<open>Offsets of matches\<close>

text \<open>
  The position of a string at offset \<open>k\<close>, and what it means that a pattern matches at
  an offset: the matcher started there yields some end. These do not go through the
  search loop and state what \<^verbatim>\<open>match.index\<close> finds.
\<close>

definition state_at :: "nat option \<Rightarrow> jstring \<Rightarrow> nat \<Rightarrow> mstate" where
  "state_at prev rest k = (if k = 0 then prev else Some (rest ! (k - 1)), drop k rest)"

definition matches_at :: "RegExp \<Rightarrow> jstring \<Rightarrow> nat \<Rightarrow> bool" where
  "matches_at re s k \<longleftrightarrow> k \<le> length s \<and> ms (snd re) (fst re) (state_at None s k) \<noteq> []"

text \<open>
  The notions of the pronoun-timing rule: no introduction pattern matches anywhere; \<open>X\<close>
  is the earliest offset at which some introduction pattern matches; a plural pronoun
  occurs at offset \<open>Y\<close> of a text, the body or the lowered body.
\<close>

definition no_introduction :: "jstring \<Rightarrow> bool" where
  "no_introduction text \<longleftrightarrow> (\<forall>p\<in>set classPatterns. \<forall>k. \<not> matches_at p text k)"

definition introduced_at :: "jstring \<Rightarrow> nat \<Rightarrow> bool" where
  "introduced_at text X \<longleftrightarrow>
     (\<exists>p\<in>set classPatterns. matches_at p text X) \<and>
     (\<forall>p\<in>set classPatterns. \<forall>j<X. \<not> matches_at p text j)"

definition pronoun_at :: "jstring \<Rightarrow> nat \<Rightarrow> bool" where
  "pronoun_at s Y \<longleftrightarrow> matches_at wePattern s Y"

text \<open>A body whose only KLAS mention is the shorthand, after a first sentence.\<close>

definition shorthand_after_stop :: jstring where
  "shorthand_after_stop = js ''Hi. KLAS data shows gains.''"

section \<open>Contact ranking and selection\<close>

record ContactListItem =
  contact_id :: jstring
  full_name :: jstring
  title :: jstring
  email :: jstring
  persona_match :: jstring
  outreach_priority :: int

definition EXCLUDED_KEYWORDS :: "jstring list" where
  "EXCLUDED_KEYWORDS =
     map js [''CEO'', ''Chief Executive'',
       ''CMO'', ''Chief Medical Officer'',
       ''CFO'', ''Chief Financial'',
       ''COO'', ''Chief Operating'',
       ''CMIO'', ''Chief Medical Information'',
       ''CNO'', ''Chief Nursing'',
       ''Epic Trainer'', ''Credentialed Trainer'', ''Training Specialist'', ''EHR Trainer'']"

definition TIER_1_KEYWORDS :: "jstring list" where
  "TIER_1_KEYWORDS = map js [''CLO'', ''Chief Learning'', ''VP Learning'', ''VP L&D'']"

definition TIER_2_KEYWORDS :: "jstring list" where
  "TIER_2_KEYWORDS = map js [''CIO'', ''Chief Information Officer'', ''Chief Digital'']"

definition TIER_3_KEYWORDS :: "jstring list" where
  "TIER_3_KEYWORDS = map js [''CHRO'', ''Chief Human Resources'', ''Chief People'', ''CPO'']"

definition TIER_4_KEYWORDS :: "jstring list" where
  "TIER_4_KEYWORDS =
     map js [''Director of Learning'', ''Director of Training'', ''Director of L&D'',
       ''Director of Education'', ''Director of Clinical Education'',
       ''VP Education'', ''VP Training'', ''Director of Workforce'']"

definition ALL_PRIORITY_KEYWORDS :: "jstring list" where
  "ALL_PRIORITY_KEYWORDS =
     TIER_1_KEYWORDS @ TIER_2_KEYWORDS @ TIER_3_KEYWORDS @ TIER_4_KEYWORDS"

definition isExcluded :: "ContactListItem \<Rightarrow> bool" where
  "isExcluded contact =
     (let combined = toLowerCase (title contact @ js '' '' @ persona_match contact)
      in list_ex (\<lambda>kw. includes_str combined (toLowerCase kw)) EXCLUDED_KEYWORDS)"

text \<open>The tier of a contact; \<open>None\<close> is the \<^verbatim>\<open>null\<close> of an excluded contact.\<close>

definition getPriorityTier :: "ContactListItem \<Rightarrow> nat option" where
  "getPriorityTier contact =
     (if isExcluded contact then None
      else
        let title = toLowerCase (title contact) in
        if list_ex (\<lambda>kw. includes_str title (toLowerCase kw)) TIER_1_KEYWORDS then Some 1
        else if list_ex (\<lambda>kw. includes_str title (toLowerCase kw)) TIER_2_KEYWORDS then Some 2
        else if list_ex (\<lambda>kw. includes_str title (toLowerCase kw)) TIER_3_KEYWORDS then Some 3
        else if list_ex (\<lambda>kw. includes_str title (toLowerCase kw)) TIER_4_KEYWORDS then Some 4
        else Some 5)"

definition shouldAutoSelect :: "ContactListItem \<Rightarrow> bool" where
  "shouldAutoSelect contact =
     (if isExcluded contact then False
      else
        let combined = toLowerCase (title contact @ js '' '' @ persona_match contact)
        in list_ex (\<lambda>kw. includes_str combined (toLowerCase kw)) ALL_PRIORITY_KEYWORDS)"

definition getAutoSelectedIds :: "ContactListItem list \<Rightarrow> jstring list" where
  "getAutoSelectedIds contacts = map contact_id (filter shouldAutoSelect contacts)"

text \<open>The comparator passed to \<^verbatim>\<open>sort\<close>.\<close>

definition compareContacts :: "ContactListItem \<Rightarrow> ContactListItem \<Rightarrow> int" where
  "compareContacts a b =
     (case (getPriorityTier a, getPriorityTier b) of
        (None, None) \<Rightarrow> 0
      | (None, Some tierB) \<Rightarrow> 1
      | (Some tierA, None) \<Rightarrow> -1
      | (Some tierA, Some tierB) \<Rightarrow>
          if tierA \<noteq> tierB then int tierA - int tierB
          else outreach_priority a - outreach_priority b)"

text \<open>
  \<^verbatim>\<open>[...contacts].sort(compare)\<close>. \<^verbatim>\<open>Array.prototype.sort\<close> is stable, and this
  comparator is a consistent one (it orders by exclusion, tier and priority), so the
  result is the one arrangement that is sorted by the comparator and keeps elements that
  compare equal in their original order. Inserting the elements from the right, each
  before the first element it does not exceed, computes that arrangement.
\<close>

fun sort_insert :: "('a \<Rightarrow> 'a \<Rightarrow> int) \<Rightarrow> 'a \<Rightarrow> 'a list \<Rightarrow> 'a list" where
  "sort_insert cmp x [] = [x]"
| "sort_insert cmp x (y # ys) =
     (if cmp x y \<le> 0 then x # y # ys else y # sort_insert cmp x ys)"

definition stable_sort :: "('a \<Rightarrow> 'a \<Rightarrow> int) \<Rightarrow> 'a list \<Rightarrow> 'a list" where
  "stable_sort cmp xs = foldr (sort_insert cmp) xs []"

definition sortContacts :: "ContactListItem list \<Rightarrow> ContactListItem list" where
  "sortContacts contacts = stable_sort compareContacts contacts"

section \<open>Storage of saved sequences\<close>

text \<open>
  The fields of \<^verbatim>\<open>SavedEmail\<close> and \<^verbatim>\<open>SavedEmailMetadata\<close> are those of the object
  literals that \<^verbatim>\<open>saveEmail\<close> and \<^verbatim>\<open>listEmails\<close> build. The field \<^verbatim>\<open>id\<close> is
  \<open>saved_id\<close> here, and the metadata fields carry the prefix \<open>meta\<close>.
\<close>

record SaveEmailInput =
  accountIndex :: int
  accountName :: jstring
  contactId :: jstring
  contactName :: jstring
  contactTitle :: jstring
  emails :: "EmailVariant list"

record SavedEmail = SaveEmailInput +
  saved_id :: jstring
  createdAt :: jstring
  updatedAt :: jstring

record SavedEmailMetadata =
  meta_id :: jstring
  meta_accountIndex :: int
  meta_accountName :: jstring
  meta_contactId :: jstring
  meta_contactName :: jstring
  meta_contactTitle :: jstring
  meta_emailCount :: nat
  meta_createdAt :: jstring
  meta_updatedAt :: jstring

text \<open>
  A JavaScript \<^verbatim>\<open>Map\<close>: entries in insertion order, one per key. \<^verbatim>\<open>set\<close> replaces
  the value of a key that is present and appends otherwise; \<^verbatim>\<open>delete\<close> removes the
  entry and tells whether there was one.
\<close>

fun map_set :: "'k \<Rightarrow> 'v \<Rightarrow> ('k \<times> 'v) list \<Rightarrow> ('k \<times> 'v) list" where
  "map_set k v [] = [(k, v)]"
| "map_set k v (p # ps) = (if fst p = k then (k, v) # ps else p # map_set k v ps)"

definition map_delete :: "'k \<Rightarrow> ('k \<times> 'v) list \<Rightarrow> bool \<times> ('k \<times> 'v) list" where
  "map_delete k m = (map_of m k \<noteq> None, filter (\<lambda>p. fst p \<noteq> k) m)"

type_synonym emailStore = "(jstring \<times> SavedEmail) list"

text \<open>
  \<^verbatim>\<open>saveEmail\<close>. The fresh \<^verbatim>\<open>crypto.randomUUID()\<close> and the clock reading
  \<^verbatim>\<open>new Date().toISOString()\<close> come from the environment and are arguments here; the
  store is passed in and returned.
\<close>

definition saveEmail ::
  "SaveEmailInput \<Rightarrow> jstring \<Rightarrow> jstring \<Rightarrow> emailStore \<Rightarrow> SavedEmail \<times> emailStore" where
  "saveEmail data uuid now store =
     (let saved = \<lparr>accountIndex = accountIndex data,
                    accountName = accountName data,
                    contactId = contactId data,
                    contactName = contactName data,
                    contactTitle = contactTitle data,
                    emails = emails data,
                    saved_id = uuid,
                    createdAt = now,
                    updatedAt = now\<rparr>
      in (saved, map_set uuid saved store))"

definition getEmail :: "jstring \<Rightarrow> emailStore \<Rightarrow> SavedEmail option" where
  "getEmail key store = map_of store key"

definition listEmails :: "int option \<Rightarrow> emailStore \<Rightarrow> SavedEmailMetadata list" where
  "listEmails filter_index store =
     (let stored = map snd store;
          filtered = (case filter_index of
                        Some i \<Rightarrow> filter (\<lambda>e. accountIndex e = i) stored
                      | None \<Rightarrow> stored)
      in map (\<lambda>e. \<lparr>meta_id = saved_id e,
                     meta_accountIndex = accountIndex e,
                     meta_accountName = accountName e,
                     meta_contactId = contactId e,
                     meta_contactName = contactName e,
                     meta_contactTitle = contactTitle e,
                     meta_emailCount = length (emails e),
                     meta_createdAt = createdAt e,
                     meta_updatedAt = updatedAt e\<rparr>) filtered)"

definition deleteEmail :: "jstring \<Rightarrow> emailStore \<Rightarrow> bool \<times> emailStore" where
  "deleteEmail key store = map_delete key store"

text \<open>
  What every store built by \<open>saveEmail\<close> and \<open>deleteEmail\<close> from the empty one
  satisfies: each record sits under its own id.
\<close>

definition store_ok :: "emailStore \<Rightarrow> bool" where
  "store_ok store = list_all (\<lambda>p. saved_id (snd p) = fst p) store"

section \<open>Generation orchestrator\<close>

subsection \<open>Extracting the JSON text\<close>

text \<open>
  \<^verbatim>\<open>accumulated.match(re)\<close> for a pattern without the \<^verbatim>\<open>g\<close> flag: element 0 is the text
  of the leftmost match, and element 1 the text of its capture group. A pattern with
  one group is given as the part before the group, the group, and the part after it;
  the engine tries the ends of the first part, for each the ends of the group, and
  for each whether the last part matches, and reports the first success.
\<close>

definition match_whole :: "RegExp \<Rightarrow> jstring \<Rightarrow> jstring option" where
  "match_whole re s =
     (case search_from s re (None, s) of
        None \<Rightarrow> None
      | Some (idx, st') \<Rightarrow> Some (take (length s - idx - length (snd st')) (drop idx s)))"

definition capture_at :: "bool \<Rightarrow> regex \<Rightarrow> regex \<Rightarrow> regex \<Rightarrow> mstate \<Rightarrow> jstring option" where
  "capture_at ic pre grp post st =
     (case concat (map (\<lambda>p. concat (map (\<lambda>g. map (\<lambda>e. (p, g)) (ms ic post g)) (ms ic grp p)))
                    (ms ic pre st)) of
        [] \<Rightarrow> None
      | (p, g) # _ \<Rightarrow> Some (take (length (snd p) - length (snd g)) (snd p)))"

fun search_capture ::
  "bool \<Rightarrow> regex \<Rightarrow> regex \<Rightarrow> regex \<Rightarrow> nat option \<Rightarrow> jstring \<Rightarrow> jstring option" where
  "search_capture ic pre grp post prev [] = capture_at ic pre grp post (prev, [])"
| "search_capture ic pre grp post prev (c # cs) =
     (case capture_at ic pre grp post (prev, c # cs) of
        None \<Rightarrow> search_capture ic pre grp post (Some c) cs
      | Some captured \<Rightarrow> Some captured)"

definition fence :: regex where
  "fence = lit [CHR 0x60, CHR 0x60, CHR 0x60]"

text \<open>\<^verbatim>\<open>[\s\S]\<close>: any code unit.\<close>

definition any_unit :: atom where
  "any_unit = Cls [Space, NonSpace]"

text \<open>Group 1 of the match of the code-block pattern: fence, optional \<^verbatim>\<open>json\<close>, \<^verbatim>\<open>\s*\<close>, the lazy group, fence.\<close>

definition codeBlockMatch :: "jstring \<Rightarrow> jstring option" where
  "codeBlockMatch accumulated =
     search_capture False (cat [fence, Opt (lit ''json''), sp0]) (LazyStar any_unit) fence
       None accumulated"

text \<open>The array pattern: \<^verbatim>\<open>[\<close>, \<^verbatim>\<open>\s*\<close>, \<^verbatim>\<open>{\<close>, lazily anything, \<^verbatim>\<open>}\<close>, \<^verbatim>\<open>\s*\<close>, \<^verbatim>\<open>]\<close>.\<close>

definition jsonMatch :: "jstring \<Rightarrow> jstring option" where
  "jsonMatch accumulated =
     match_whole
       (cat [lit ''['', sp0, lit ''{'', LazyStar any_unit, lit ''}'', sp0, lit '']''], False)
       accumulated"

text \<open>\<^verbatim>\<open>indexOf\<close> and \<^verbatim>\<open>lastIndexOf\<close> of a code unit, -1 when it does not occur.\<close>

fun indexOf_from :: "nat \<Rightarrow> jstring \<Rightarrow> nat \<Rightarrow> int" where
  "indexOf_from c [] i = -1"
| "indexOf_from c (x # xs) i = (if x = c then int i else indexOf_from c xs (Suc i))"

fun lastIndexOf_from :: "nat \<Rightarrow> jstring \<Rightarrow> nat \<Rightarrow> int" where
  "lastIndexOf_from c [] i = -1"
| "lastIndexOf_from c (x # xs) i =
     (let later = lastIndexOf_from c xs (Suc i)
      in if later \<noteq> -1 then later else if x = c then int i else -1)"

definition slice :: "jstring \<Rightarrow> int \<Rightarrow> int \<Rightarrow> jstring" where
  "slice s from until = take (nat (until - from)) (drop (nat from) s)"

text \<open>
  The parsing part of \<^verbatim>\<open>generateForContact\<close>, with its nested \<^verbatim>\<open>try\<close> blocks.
  \<^verbatim>\<open>JSON.parse\<close> is the language's own and is an argument: \<open>None\<close> is a thrown
  \<^verbatim>\<open>SyntaxError\<close>. \<open>Inl\<close> is the message of the \<^verbatim>\<open>Error\<close> that is thrown.
\<close>

definition parseAccumulated :: "(jstring \<Rightarrow> 'j option) \<Rightarrow> jstring \<Rightarrow> jstring + 'j" where
  "parseAccumulated parse accumulated =
     (case parse accumulated of
        Some es \<Rightarrow> Inr es
      | None \<Rightarrow>
         (case (case codeBlockMatch accumulated of
                  Some group1 \<Rightarrow> parse (trim group1)
                | None \<Rightarrow> None) of
            Some es \<Rightarrow> Inr es
          | None \<Rightarrow>
             (case (case jsonMatch accumulated of
                      Some match0 \<Rightarrow> parse match0
                    | None \<Rightarrow> None) of
                Some es \<Rightarrow> Inr es
              | None \<Rightarrow>
                 (let firstBracket = indexOf_from 91 accumulated 0;
                      lastBracket = lastIndexOf_from 93 accumulated 0
                  in case (if firstBracket \<noteq> -1 \<and> lastBracket > firstBracket
                           then parse (slice accumulated firstBracket (lastBracket + 1))
                           else None) of
                       Some es \<Rightarrow> Inr es
                     | None \<Rightarrow> Inl (js ''Failed to parse email sequence from response'')))))"

subsection \<open>One contact\<close>

text \<open>
  What \<^verbatim>\<open>fetch\<close> delivers: the \<^verbatim>\<open>ok\<close> flag, the status, the \<^verbatim>\<open>details\<close> and
  \<^verbatim>\<open>error\<close> strings of the JSON error body (\<open>None\<close> when the body is not JSON, an
  empty string for a field that is absent), and the decoded chunks of the stream
  (\<open>None\<close> when there is no body).
\<close>

record response =
  ok :: bool
  http_status :: nat
  errorData :: "(jstring \<times> jstring) option"
  chunks :: "jstring list option"

definition errorMessage_of :: "response \<Rightarrow> jstring" where
  "errorMessage_of r =
     (case errorData r of
        None \<Rightarrow> js ''Unknown error''
      | Some (details, err) \<Rightarrow>
          if details \<noteq> [] then details
          else if err \<noteq> [] then err
          else js ''HTTP '' @ show_nat (http_status r))"

definition generateForContact :: "(jstring \<Rightarrow> 'j option) \<Rightarrow> response \<Rightarrow> jstring + 'j" where
  "generateForContact parse r =
     (if \<not> ok r then Inl (errorMessage_of r)
      else case chunks r of
             None \<Rightarrow> Inl (js ''No response body'')
           | Some cs \<Rightarrow> parseAccumulated parse (concat cs))"

text \<open>
  The specification's reading of the parsing step: four candidate texts in a fixed
  order, and the first one that parses wins.
\<close>

definition bracket_span :: "jstring \<Rightarrow> jstring option" where
  "bracket_span accumulated =
     (if indexOf_from 91 accumulated 0 \<noteq> -1 \<and>
         lastIndexOf_from 93 accumulated 0 > indexOf_from 91 accumulated 0
      then Some (slice accumulated (indexOf_from 91 accumulated 0)
                   (lastIndexOf_from 93 accumulated 0 + 1))
      else None)"

definition strategy_candidates :: "jstring \<Rightarrow> jstring option list" where
  "strategy_candidates accumulated =
     [Some accumulated,
      map_option trim (codeBlockMatch accumulated),
      jsonMatch accumulated,
      bracket_span accumulated]"

fun first_parseable :: "(jstring \<Rightarrow> 'j option) \<Rightarrow> jstring option list \<Rightarrow> 'j option" where
  "first_parseable parse [] = None"
| "first_parseable parse (None # rest) = first_parseable parse rest"
| "first_parseable parse (Some candidate # rest) =
     (case parse candidate of
        Some v \<Rightarrow> Some v
      | None \<Rightarrow> first_parseable parse rest)"

subsection \<open>The candidates as the specification describes them\<close>

text \<open>
  The candidates of the fallback in the specification's words, on the text itself and
  without regular expressions. \<open>first_occurrence p s\<close> is \<^verbatim>\<open>s.indexOf(p)\<close>. The content of
  the first fenced code block is what follows the first fence and its optional
  \<^verbatim>\<open>json\<close> tag, up to the next fence, trimmed.
\<close>

definition ticks :: jstring where
  "ticks = [96, 96, 96]"

fun first_occurrence :: "jstring \<Rightarrow> jstring \<Rightarrow> nat option" where
  "first_occurrence p [] = (if p = [] then Some 0 else None)"
| "first_occurrence p (c # cs) =
     (if startsWith (c # cs) p then Some 0 else map_option Suc (first_occurrence p cs))"

definition untag :: "jstring \<Rightarrow> jstring" where
  "untag r = (if startsWith r (js ''json'') then drop 4 r else r)"

definition spec_fenced_block :: "jstring \<Rightarrow> jstring option" where
  "spec_fenced_block t =
     (case first_occurrence ticks t of
        None \<Rightarrow> None
      | Some i \<Rightarrow>
          (let opened = untag (drop (i + 3) t)
           in case first_occurrence ticks opened of
                None \<Rightarrow> None
              | Some j \<Rightarrow> Some (trim (take j opened))))"

text \<open>
  The first bracketed array-of-objects pattern. \<open>spaced_pair a b r\<close> is the length of
  \<open>a\<close>, white space, \<open>b\<close> at the start of \<open>r\<close>, and \<open>first_close r\<close> the offset just
  after the first \<^verbatim>\<open>}\<close>, white space, \<^verbatim>\<open>]\<close> in \<open>r\<close>. An array starts at \<^verbatim>\<open>[\<close>, white
  space, \<^verbatim>\<open>{\<close> and ends with the first \<^verbatim>\<open>}\<close>, white space, \<^verbatim>\<open>]\<close> after it; the
  candidate is the array with the leftmost start.
\<close>

definition spaced_pair :: "nat \<Rightarrow> nat \<Rightarrow> jstring \<Rightarrow> nat option" where
  "spaced_pair a b r =
     (case r of
        [] \<Rightarrow> None
      | c # r1 \<Rightarrow>
          if c = a \<and> startsWith (dropWhile is_space r1) [b]
          then Some (length (takeWhile is_space r1) + 2) else None)"

fun first_close :: "jstring \<Rightarrow> nat option" where
  "first_close [] = None"
| "first_close (c # cs) =
     (case spaced_pair 125 93 (c # cs) of
        Some n \<Rightarrow> Some n
      | None \<Rightarrow> map_option Suc (first_close cs))"

definition array_at :: "jstring \<Rightarrow> jstring option" where
  "array_at r =
     (case spaced_pair 91 123 r of
        None \<Rightarrow> None
      | Some n \<Rightarrow>
          (case first_close (drop n r) of
             None \<Rightarrow> None
           | Some m \<Rightarrow> Some (take (n + m) r)))"

fun spec_array_match :: "jstring \<Rightarrow> jstring option" where
  "spec_array_match [] = None"
| "spec_array_match (c # cs) =
     (case array_at (c # cs) of
        Some found \<Rightarrow> Some found
      | None \<Rightarrow> spec_array_match cs)"

text \<open>
  The text from the first \<^verbatim>\<open>[\<close> to the last \<^verbatim>\<open>]\<close>, both included, when a \<^verbatim>\<open>]\<close>
  comes after the first \<^verbatim>\<open>[\<close>.
\<close>

definition spec_bracket_span :: "jstring \<Rightarrow> jstring option" where
  "spec_bracket_span t =
     (let from_open = dropWhile (\<lambda>c. c \<noteq> 91) t
      in if 93 \<in> set from_open
         then Some (rev (dropWhile (\<lambda>c. c \<noteq> 93) (rev from_open)))
         else None)"

definition spec_candidates :: "jstring \<Rightarrow> jstring option list" where
  "spec_candidates t =
     [Some t, spec_fenced_block t, spec_array_match t, spec_bracket_span t]"

subsection \<open>The batch loop\<close>

datatype Status = Pending | Generating | Complete | Error

record GenerationStatus =
  contactId :: jstring
  contactName :: jstring
  status :: Status
  error :: "jstring option"

text \<open>
  One turn of the \<^verbatim>\<open>for (const contact of contacts)\<close> loop of \<^verbatim>\<open>handleGenerate\<close>,
  on the list of statuses and the \<^verbatim>\<open>results\<close> map. \<open>fetch\<close> is what the service
  answers for a contact, and \<open>truthy\<close> is the truthiness of a parsed JSON value
  (\<^verbatim>\<open>if (emails)\<close>). Everything thrown inside \<^verbatim>\<open>generateForContact\<close> is an
  \<^verbatim>\<open>Error\<close>, so the message recorded is its message.
\<close>

definition generate_step ::
  "(jstring \<Rightarrow> 'j option) \<Rightarrow> ('j \<Rightarrow> bool) \<Rightarrow> (ContactListItem \<Rightarrow> response) \<Rightarrow>
   GenerationStatus list \<times> (jstring \<times> 'j) list \<Rightarrow> ContactListItem \<Rightarrow>
   GenerationStatus list \<times> (jstring \<times> 'j) list" where
  "generate_step parse truthy fetch st contact =
     (let statuses1 = map (\<lambda>s. if contactId s = contact_id contact
                                then s\<lparr>status := Generating\<rparr> else s) (fst st)
      in case generateForContact parse (fetch contact) of
           Inr es \<Rightarrow>
             (map (\<lambda>s. if contactId s = contact_id contact
                       then s\<lparr>status := Complete\<rparr> else s) statuses1,
              if truthy es then map_set (contact_id contact) es (snd st) else snd st)
         | Inl errorMessage \<Rightarrow>
             (map (\<lambda>s. if contactId s = contact_id contact
                       then s\<lparr>status := Error, error := Some errorMessage\<rparr> else s) statuses1,
              snd st))"

text \<open>
  \<^verbatim>\<open>handleGenerate\<close>: nothing happens for an empty selection (\<open>None\<close>); otherwise
  the final statuses and the map handed to \<^verbatim>\<open>onEmailsGenerated\<close>.
\<close>

definition handleGenerate ::
  "(jstring \<Rightarrow> 'j option) \<Rightarrow> ('j \<Rightarrow> bool) \<Rightarrow> (ContactListItem \<Rightarrow> response) \<Rightarrow>
   ContactListItem list \<Rightarrow> (GenerationStatus list \<times> (jstring \<times> 'j) list) option" where
  "handleGenerate parse truthy fetch contacts =
     (if length contacts = 0 then None
      else
        let initialStatuses =
              map (\<lambda>c. \<lparr>contactId = contact_id c, contactName = full_name c,
                         status = Pending, error = None\<rparr>) contacts
        in Some (foldl (generate_step parse truthy fetch) (initialStatuses, []) contacts))"

section \<open>Notions used to state the properties\<close>

text \<open>Every occurrence of \<open>x\<close> in a list comes before every occurrence of \<open>y\<close>.\<close>

definition all_before :: "'a \<Rightarrow> 'a \<Rightarrow> 'a list \<Rightarrow> bool" where
  "all_before x y xs \<longleftrightarrow>
     (\<forall>i j. i < length xs \<and> j < length xs \<and> xs ! i = x \<and> xs ! j = y \<longrightarrow> i < j)"

text \<open>
  The batch loop in closed form: the status a contact starts with, the status it ends
  with, and the entries of the result map, one for each contact whose generation
  returned a truthy value.
\<close>

definition pending_status :: "ContactListItem \<Rightarrow> GenerationStatus" where
  "pending_status c =
     \<lparr>contactId = contact_id c, contactName = full_name c, status = Pending, error = None\<rparr>"

definition final_status ::
  "(jstring \<Rightarrow> 'j option) \<Rightarrow> (ContactListItem \<Rightarrow> response) \<Rightarrow> ContactListItem \<Rightarrow> GenerationStatus" where
  "final_status parse fetch c =
     (case generateForContact parse (fetch c) of
        Inr es \<Rightarrow>
          \<lparr>contactId = contact_id c, contactName = full_name c, status = Complete, error = None\<rparr>
      | Inl errorMessage \<Rightarrow>
          \<lparr>contactId = contact_id c, contactName = full_name c, status = Error,
           error = Some errorMessage\<rparr>)"

definition results_of ::
  "(jstring \<Rightarrow> 'j option) \<Rightarrow> ('j \<Rightarrow> bool) \<Rightarrow> (ContactListItem \<Rightarrow> response) \<Rightarrow>
   ContactListItem list \<Rightarrow> (jstring \<times> 'j) list" where
  "results_of parse truthy fetch cs =
     List.map_filter
       (\<lambda>c. case generateForContact parse (fetch c) of
               Inr es \<Rightarrow> if truthy es then Some (contact_id c, es) else None
             | Inl errorMessage \<Rightarrow> None) cs"

text \<open>Example contacts, a stored sequence, and a service that fails for one contact.\<close>

definition ann_ceo :: ContactListItem where
  "ann_ceo = \<lparr>contact_id = js ''ANN-A'', full_name = js ''Ann Ames'', title = js ''CEO'',
     email = js ''ann@example.org'', persona_match = js ''Executive'', outreach_priority = 1\<rparr>"

definition bob_educator :: ContactListItem where
  "bob_educator = \<lparr>contact_id = js ''BOB-B'', full_name = js ''Bob Bell'',
     title = js ''Director of Clinical Education'', email = js ''bob@example.org'',
     persona_match = js ''Clinical/Education Leader'', outreach_priority = 7\<rparr>"

definition cy_director :: ContactListItem where
  "cy_director = \<lparr>contact_id = js ''CY-C'', full_name = js ''Cy Cole'',
     title = js ''Director of Clinical Education'', email = js ''cy@example.org'',
     persona_match = js ''Clinical/Education Leader'', outreach_priority = 3\<rparr>"

definition dee_cno_director :: ContactListItem where
  "dee_cno_director = \<lparr>contact_id = js ''DEE-D'', full_name = js ''Dee Dunn'',
     title = js ''Director of Clinical Education'', email = js ''dee@example.org'',
     persona_match = js ''CNO office'', outreach_priority = 2\<rparr>"

definition sample_input :: SaveEmailInput where
  "sample_input = \<lparr>accountIndex = 7, accountName = js ''Mercy Health'',
     contactId = js ''CY-C'', contactName = js ''Cy Cole'',
     contactTitle = js ''Director of Clinical Education'', emails = [short_email]\<rparr>"

definition sample_store :: emailStore where
  "sample_store = snd (saveEmail sample_input (js ''uuid-0'') (js ''2026-01-01T00:00:00.000Z'') [])"

definition sample_fetch :: "ContactListItem \<Rightarrow> response" where
  "sample_fetch contact =
     (if contact_id contact = js ''BOB-B''
      then \<lparr>ok = False, http_status = 402,
            errorData = Some (js ''Credit balance too low'', js ''Generation failed''),
            chunks = None\<rparr>
      else \<lparr>ok = True, http_status = 200, errorData = None,
            chunks = Some [js ''[1, 2'', js '', 3]'']\<rparr>)"

definition sample_parse :: "jstring \<Rightarrow> nat list option" where
  "sample_parse s = (if s = js ''[1, 2, 3]'' then Some [1, 2, 3] else None)"

definition sample_truthy :: "nat list \<Rightarrow> bool" where
  "sample_truthy v = True"

subsection \<open>Bodies whose lower case keeps every offset\<close>

text \<open>
  Lowering a body without U+0130 and without the Kelvin sign moves no code unit and
  turns none but A to Z into an ASCII letter. \<open>low1\<close> is the lower case of a code unit
  of such a body, as far as the patterns can tell, and \<open>low_state\<close> that of a position
  of the matcher.
\<close>

definition low1 :: "nat \<Rightarrow> nat" where
  "low1 c = (if 65 \<le> c \<and> c \<le> 90 then c + 32 else c)"

definition low_state :: "mstate \<Rightarrow> mstate" where
  "low_state st = (map_option low1 (fst st), map low1 (snd st))"

definition ascii_cased :: "jstring \<Rightarrow> bool" where
  "ascii_cased text = list_all (\<lambda>c. c \<noteq> 304 \<and> c \<noteq> 8490) text"

text \<open>A body in which three U+0130 come before the pronoun and the introduction.\<close>

definition shifted_example :: jstring where
  "shifted_example = [304, 304, 304] @ js '' we about class.''"

subsection \<open>Positions of the fallback patterns\<close>

text \<open>
  The position after a run of white space; what the code-block pattern captures when
  it is tried at the start of a text; the array pattern by name.
\<close>

fun after_spaces :: "mstate \<Rightarrow> mstate" where
  "after_spaces (prev, []) = (prev, [])"
| "after_spaces (prev, c # cs) =
     (if is_space c then after_spaces (Some c, cs) else (prev, c # cs))"

definition content_of :: "jstring \<Rightarrow> jstring" where
  "content_of rest = dropWhile is_space (untag (drop 3 rest))"

definition block_at :: "jstring \<Rightarrow> jstring option" where
  "block_at rest =
     (if startsWith rest ticks
      then map_option (\<lambda>j. take j (content_of rest)) (first_occurrence ticks (content_of rest))
      else None)"

definition arrayPattern :: regex where
  "arrayPattern = cat [lit ''['', sp0, lit ''{'', LazyStar any_unit, lit ''}'', sp0, lit '']'']"

text \<open>
  A parser that accepts one text only, and three replies: a fenced block between
  prose, a fenced block that is not JSON followed by an array of objects, and a bare
  array of numbers.
\<close>

definition parse_exactly :: "jstring \<Rightarrow> jstring \<Rightarrow> jstring option" where
  "parse_exactly good s = (if s = good then Some s else None)"

definition fenced_reply :: jstring where
  "fenced_reply =
     js ''Here you go:'' @ [10] @ ticks @ js ''json'' @ [10] @ js ''[1, 2, 3]'' @ [10] @ ticks @
     [10] @ js ''Enjoy [x]''"

definition prose_reply :: jstring where
  "prose_reply = ticks @ [10] @ js ''oops'' @ [10] @ ticks @ js '' See [ {1} ] and [2]''"

definition bare_reply :: jstring where
  "bare_reply = js ''See [1, 2, 3] ok''"

subsection \<open>Example sequence\<close>

text \<open>
  Bodies made of a run of one-letter words followed by a short tail, and the regular
  expressions that cannot start inside such a run: a pattern that is not nullable and
  whose first unit is neither \<open>x\<close> nor a space.
\<close>

fun nullable :: "regex \<Rightarrow> bool" where
  "nullable Eps = True"
| "nullable (Atom a) = False"
| "nullable (Seq r1 r2) = (nullable r1 \<and> nullable r2)"
| "nullable (Alt r1 r2) = (nullable r1 \<or> nullable r2)"
| "nullable (Opt r) = True"
| "nullable (Star a) = True"
| "nullable (Plus a) = False"
| "nullable (LazyStar a) = True"
| "nullable WordB = True"
| "nullable Bol = True"

fun first_ok :: "bool \<Rightarrow> regex \<Rightarrow> nat \<Rightarrow> bool" where
  "first_ok ic Eps c = False"
| "first_ok ic (Atom a) c = atom_ok ic a c"
| "first_ok ic (Seq r1 r2) c = (first_ok ic r1 c \<or> (nullable r1 \<and> first_ok ic r2 c))"
| "first_ok ic (Alt r1 r2) c = (first_ok ic r1 c \<or> first_ok ic r2 c)"
| "first_ok ic (Opt r) c = first_ok ic r c"
| "first_ok ic (Star a) c = atom_ok ic a c"
| "first_ok ic (Plus a) c = atom_ok ic a c"
| "first_ok ic (LazyStar a) c = atom_ok ic a c"
| "first_ok ic WordB c = False"
| "first_ok ic Bol c = False"

definition filler :: "nat \<Rightarrow> jstring" where
  "filler n = concat (replicate n (js ''x ''))"

definition plain_body :: jstring where
  "plain_body = filler 149 @ [10] @ js ''Dalton''"

definition warm_body :: jstring where
  "warm_body = filler 143 @ js ''i hope this data is useful'' @ [10] @ js ''Dalton''"

definition skips_filler :: "RegExp \<Rightarrow> bool" where
  "skips_filler re \<longleftrightarrow>
     \<not> nullable (fst re) \<and> \<not> first_ok (snd re) (fst re) 120 \<and> \<not> first_ok (snd re) (fst re) 32"

definition valid_first :: EmailVariant where
  "valid_first = \<lparr>variant_id = js ''007-C-E1'', email_number = 1,
     subject_line = js ''Training ahead of go-live'', body = plain_body, word_count = 150,
     angle = Timing\<rparr>"

definition valid_second :: EmailVariant where
  "valid_second = \<lparr>variant_id = js ''007-C-E2'', email_number = 2,
     subject_line = js ''Floor time and training'', body = plain_body, word_count = 150,
     angle = Challenge\<rparr>"

definition valid_third :: EmailVariant where
  "valid_third = \<lparr>variant_id = js ''007-C-E3'', email_number = 3,
     subject_line = js ''Results from similar teams'', body = warm_body, word_count = 150,
     angle = Outcome\<rparr>"

definition plain_tail :: jstring where
  "plain_tail = [10] @ js ''Dalton''"

definition warm_tail :: jstring where
  "warm_tail = js ''i hope this data is useful'' @ [10] @ js ''Dalton''"

section \<open>Properties of the rule validator\<close>

subsection \<open>Word count\<close>

lemma runs_dropWhile: "runs False (dropWhile is_space s) = runs False s"
  by (induction s) auto

lemma runs_space_suffix: "\<forall>c\<in>set w. is_space c \<Longrightarrow> runs b (t @ w) = runs b t"
proof (induction t arbitrary: b)
  case Nil
  then show ?case by (induction w arbitrary: b) auto
next
  case (Cons a t)
  then show ?case by simp
qed

lemma strip_right: "rev (dropWhile is_space (rev t)) @ rev (takeWhile is_space (rev t)) = t"
  by (metis rev_append rev_rev_ident takeWhile_dropWhile_id)

lemma runs_trim: "runs False (trim s) = runs False s"
proof -
  let ?t = "dropWhile is_space s"
  have "runs False (rev (dropWhile is_space (rev ?t))) =
        runs False (rev (dropWhile is_space (rev ?t)) @ rev (takeWhile is_space (rev ?t)))"
    by (rule runs_space_suffix [symmetric]) (auto dest: set_takeWhileD)
  also have "\<dots> = runs False ?t" by (simp only: strip_right)
  finally show ?thesis by (simp add: trim_def runs_dropWhile)
qed

lemma split_ws_runs:
  "length (filter (\<lambda>w. length w > 0) (split_ws cur s)) = (if cur = [] then 0 else 1) + runs (cur \<noteq> []) s"
  by (induction cur s rule: split_ws.induct) (auto simp: runs_dropWhile)

lemma runs_first_token:
  "runs b s = (if \<not> b \<and> takeWhile (\<lambda>c. \<not> is_space c) s \<noteq> [] then 1 else 0)
              + runs False (dropWhile (\<lambda>c. \<not> is_space c) s)"
  by (induction s arbitrary: b) auto

lemma dropWhile_nonspace_head:
  "dropWhile (\<lambda>c. \<not> is_space c) s = r # rs \<Longrightarrow> is_space r"
  by (metis (mono_tags, lifting) hd_dropWhile list.sel(1) list.distinct(1))

declare ws_pieces.simps [simp del]

lemma ws_pieces_last:
  "dropWhile (\<lambda>c. \<not> is_space c) s = [] \<Longrightarrow> ws_pieces s = [takeWhile (\<lambda>c. \<not> is_space c) s]"
  by (subst ws_pieces.simps) (simp only: list.case)

lemma ws_pieces_more:
  "dropWhile (\<lambda>c. \<not> is_space c) s = r # rs \<Longrightarrow>
   ws_pieces s = takeWhile (\<lambda>c. \<not> is_space c) s # ws_pieces (dropWhile is_space rs)"
  by (subst ws_pieces.simps) (simp only: list.case)

lemma ws_pieces_runs: "length (filter (\<lambda>t. t \<noteq> []) (ws_pieces s)) = runs False s"
proof (induction s rule: ws_pieces.induct)
  case (1 s)
  let ?d = "dropWhile (\<lambda>c. \<not> is_space c) s"
  show ?case
  proof (cases ?d)
    case Nil
    show ?thesis
      by (simp only: ws_pieces_last [OF Nil] runs_first_token [of False s] Nil) simp
  next
    case (Cons r rs)
    have sp: "is_space r" using Cons by (rule dropWhile_nonspace_head)
    have "runs False ?d = runs False (dropWhile is_space rs)"
      using sp by (simp only: Cons runs.simps runs_dropWhile if_True)
    then show ?thesis
      using 1 [OF Cons]
      by (simp only: ws_pieces_more [OF Cons] runs_first_token [of False s]) simp
  qed
qed

lemma countWords_runs: "countWords s = runs False s"
  using split_ws_runs [of "[]" "trim s"] by (simp add: countWords_def runs_trim)

text \<open>
  C7. For every string, \<open>countWords\<close> is the number of non-empty tokens obtained by
  splitting the string on maximal runs of white space. The string \<^verbatim>\<open>"a  b\tc"\<close> has
  three words, the empty string has none, and a string of white space only (every such
  string is \<open>filter is_space s\<close> for some \<open>s\<close>) has none.
\<close>

theorem countWords_counts_tokens:
  "countWords s = spec_token_count s \<and>
   countWords (js ''a  b'' @ [9] @ js ''c'') = 3 \<and>
   countWords [] = 0 \<and>
   countWords (filter is_space s) = 0"
proof -
  have general: "countWords s = spec_token_count s"
    by (simp add: countWords_runs spec_token_count_def ws_pieces_runs)
  have example: "countWords (js ''a  b'' @ [9] @ js ''c'') = 3"
    by (simp add: countWords_def js_def trim_def is_space_def)
  have blank: "countWords (filter is_space s) = 0"
  proof -
    have "dropWhile is_space (filter is_space s) = []" by simp
    then have "trim (filter is_space s) = []"
      by (simp only: trim_def rev.simps dropWhile.simps)
    then show ?thesis by (simp only: countWords_def) simp
  qed
  have "countWords [] = 0"
    by (simp add: countWords_def trim_def)
  with general example blank show ?thesis by simp
qed

subsection \<open>The result of validateEmail\<close>

lemma js_eq_iff: "js a = js b \<longleftrightarrow> a = b"
  by (simp add: js_def inj_map_eq_map inj_on_def)

lemma push_empty: "((if good then F else F @ [f]) = []) = (good \<and> F = [])"
  by simp

lemma run_check_checks: "fst (run_check k good f fx acc) = obj_set k good (fst acc)"
  by (simp add: run_check_def)

lemma run_check_failures_empty:
  "(fst (snd (run_check k good f fx acc)) = []) = (good \<and> fst (snd acc) = [])"
  by (simp add: run_check_def)

lemma run_check_failures_mem:
  "x \<in> set (fst (snd (run_check k good f fx acc))) \<longleftrightarrow>
   x \<in> set (fst (snd acc)) \<or> (\<not> good \<and> x = f)"
  by (auto simp add: run_check_def)

lemma run_check_suggestions_mem:
  "x \<in> set (snd (snd (run_check k good f fx acc))) \<longleftrightarrow>
   x \<in> set (snd (snd acc)) \<or> (\<not> good \<and> x \<in> set fx)"
  by (auto simp add: run_check_def)

lemma validateEmail_checks: "checks (validateEmail em) = zip check_keys (check_values em)"
  by (simp add: validateEmail_def Let_def run_check_checks js_eq_iff check_keys_def
      check_values_def)

lemma validateEmail_failures_empty:
  "(failures (validateEmail em) = []) = list_all id (check_values em)"
  by (simp add: validateEmail_def Let_def run_check_failures_empty check_values_def, blast)

text \<open>
  C10. For every email, \<open>validateEmail\<close> returns a result (the function is total: no
  branch of the source throws) whose checks hold exactly the nine keys, in the order of
  the checks; \<open>passed\<close> is true exactly when the list of failures is empty, and that
  is exactly when every one of the nine check values is true.
\<close>

theorem validateEmail_nine_checks:
  "map fst (checks (validateEmail em)) =
     map js [''word_count_valid'', ''contractions_used'', ''klas_intro_valid'',
       ''we_timing_valid'', ''cta_valid'', ''warmth_phrase_valid'', ''no_banned_phrases'',
       ''signature_valid'', ''subject_valid''] \<and>
   passed (validateEmail em) = (failures (validateEmail em) = []) \<and>
   (failures (validateEmail em) = []) = list_all snd (checks (validateEmail em))"
proof -
  have keys: "map fst (checks (validateEmail em)) = check_keys"
    by (simp add: validateEmail_checks check_keys_def check_values_def)
  have p: "passed (validateEmail em) = (failures (validateEmail em) = [])"
    by (simp add: validateEmail_def Let_def)
  have "list_all snd (checks (validateEmail em)) = list_all id (check_values em)"
    by (simp add: validateEmail_checks check_keys_def check_values_def)
  with keys p show ?thesis
    by (simp only: validateEmail_failures_empty check_keys_def) 
qed


subsection \<open>The word-count check\<close>

lemma validateEmail_failures:
  assumes "\<not> (150 \<le> countWords (body em) \<and> countWords (body em) \<le> 200)"
  shows "js ''Word count '' @ show_nat (countWords (body em)) @ js '' outside range 150-200''
     \<in> set (failures (validateEmail em))"
  using assms by (simp add: validateEmail_def Let_def run_check_failures_mem)

lemma validateEmail_suggestions:
  assumes "\<not> (150 \<le> countWords (body em) \<and> countWords (body em) \<le> 200)"
  shows "word_count_fix (countWords (body em)) \<in> set (suggestions (validateEmail em))"
  using assms by (simp add: validateEmail_def Let_def run_check_suggestions_mem)

lemma map_of_word_count:
  "map_of (checks (validateEmail em)) (js ''word_count_valid'') =
   Some (150 \<le> countWords (body em) \<and> countWords (body em) \<le> 200)"
  by (simp add: validateEmail_checks check_keys_def check_values_def)

text \<open>
  C2, as the code has it. The validator never reads the \<open>word_count\<close> field: it counts
  the words of the body. For every email whose counted words lie outside 150 to 200,
  the check \<open>word_count_valid\<close> is false, the failures name the counted number of
  words, and the suggestions (not the failures) name the exact shortfall below 150 or
  the exact excess above 200.
\<close>

theorem validateEmail_word_count:
  assumes "countWords (body em) < 150 \<or> 200 < countWords (body em)"
  shows "map_of (checks (validateEmail em)) (js ''word_count_valid'') = Some False \<and>
         js ''Word count '' @ show_nat (countWords (body em)) @ js '' outside range 150-200''
           \<in> set (failures (validateEmail em)) \<and>
         (if countWords (body em) < 150
          then js ''Add '' @ show_nat (150 - countWords (body em)) @ js '' more words to meet minimum''
          else js ''Remove '' @ show_nat (countWords (body em) - 200) @ js '' words to meet maximum'')
           \<in> set (suggestions (validateEmail em))"
proof -
  from assms have out: "\<not> (150 \<le> countWords (body em) \<and> countWords (body em) \<le> 200)"
    by auto
  then have "map_of (checks (validateEmail em)) (js ''word_count_valid'') = Some False"
    by (simp only: map_of_word_count)
  moreover note validateEmail_failures [OF out]
  moreover have "(if countWords (body em) < 150
          then js ''Add '' @ show_nat (150 - countWords (body em)) @ js '' more words to meet minimum''
          else js ''Remove '' @ show_nat (countWords (body em) - 200) @ js '' words to meet maximum'')
           \<in> set (suggestions (validateEmail em))"
    using validateEmail_suggestions [OF out] by (simp only: word_count_fix_def)
  ultimately show ?thesis by blast
qed


lemma countWords_short: "countWords (body short_email) = 2"
  by (simp add: short_email_def countWords_def trim_def js_def is_space_def)

theorem validateEmail_word_count_witness:
  "countWords (body short_email) = 2 \<and>
   map_of (checks (validateEmail short_email)) (js ''word_count_valid'') = Some False \<and>
   js ''Word count 2 outside range 150-200'' \<in> set (failures (validateEmail short_email)) \<and>
   js ''Add 148 more words to meet minimum'' \<in> set (suggestions (validateEmail short_email))"
proof -
  have w: "countWords (body short_email) = 2" by (rule countWords_short)
  have s2: "show_nat 2 = js ''2''" by code_simp
  have s148: "show_nat 148 = js ''148''" by code_simp
  have "countWords (body short_email) < 150 \<or> 200 < countWords (body short_email)"
    by (simp add: w)
  from validateEmail_word_count [OF this] show ?thesis
    by (simp add: w s2 s148 js_def)
qed


lemma runs_padded: "runs False (concat (replicate n (js ''a ''))) = n"
  by (induction n) (simp_all add: js_def is_space_def)

text \<open>
  The claim as stated fails: an email whose \<open>word_count\<close> field is 0, outside the
  interval, and whose body has 150 words gets \<open>word_count_valid\<close> true.
\<close>

theorem word_count_field_counterexample:
  "word_count mislabelled_email < 150 \<and>
   map_of (checks (validateEmail mislabelled_email)) (js ''word_count_valid'') = Some True"
proof -
  have "countWords (body mislabelled_email) = 150"
    by (simp add: mislabelled_email_def padded_body_def countWords_runs runs_padded)
  then show ?thesis
    by (simp add: map_of_word_count) (simp add: mislabelled_email_def)
qed

subsection \<open>The sequence validator\<close>

lemma sequence_step_failures:
  "fst (snd (sequence_step acc em)) =
     (if passed (validateEmail em) then fst (snd acc)
      else fst (snd acc) @
        [js ''Email '' @ show_nat (email_number em) @ js '': '' @
         join (js ''; '') (failures (validateEmail em))])"
  by (simp add: sequence_step_def Let_def)

lemma sequence_step_keeps:
  "x \<in> set (fst (snd acc)) \<Longrightarrow> x \<in> set (fst (snd (sequence_step acc em)))"
  by (simp add: sequence_step_failures)

lemma sequence_steps_keep:
  "x \<in> set (fst (snd acc)) \<Longrightarrow> x \<in> set (fst (snd (foldl sequence_step acc es)))"
  by (induction es arbitrary: acc) (simp_all add: sequence_step_keeps)

lemma sequence_steps_empty:
  "(fst (snd (foldl sequence_step acc es)) = []) =
   (fst (snd acc) = [] \<and> list_all (\<lambda>e. passed (validateEmail e)) es)"
  by (induction es arbitrary: acc) (auto simp add: sequence_step_failures)

lemma swapped_message:
  "angle_failure [Challenge, Timing, Outcome] =
   js ''Angle order incorrect: expected timing->challenge->outcome, got challenge->timing->outcome''"
  by (simp add: angle_failure_def js_def)

text \<open>
  C5. Three emails whose angles are timing, challenge, outcome, in this order: the
  sequence passes exactly when each email passes \<open>validateEmail\<close>, so it passes when
  all three do. The same emails with the first two swapped: the sequence fails and the
  failures hold the angle-order message, whatever \<open>validateEmail\<close> says of each email.
\<close>

theorem validateSequence_angle_order:
  assumes "angle e1 = Timing" and "angle e2 = Challenge" and "angle e3 = Outcome"
  shows "passed (validateSequence [e1, e2, e3]) =
           (passed (validateEmail e1) \<and> passed (validateEmail e2) \<and> passed (validateEmail e3)) \<and>
         \<not> passed (validateSequence [e2, e1, e3]) \<and>
         js ''Angle order incorrect: expected timing->challenge->outcome, got challenge->timing->outcome''
           \<in> set (failures (validateSequence [e2, e1, e3]))"
proof -
  have ordered: "passed (validateSequence [e1, e2, e3]) =
      (passed (validateEmail e1) \<and> passed (validateEmail e2) \<and> passed (validateEmail e3))"
    using assms
    by (simp add: validateSequence_def Let_def expectedAngles_def sequence_steps_empty
        del: foldl.simps)
  have "angle_failure [Challenge, Timing, Outcome]
          \<in> set (failures (validateSequence [e2, e1, e3]))"
    using assms
    by (simp add: validateSequence_def Let_def expectedAngles_def sequence_steps_keep
        del: foldl.simps)
  then have swapped: "js ''Angle order incorrect: expected timing->challenge->outcome, got challenge->timing->outcome''
          \<in> set (failures (validateSequence [e2, e1, e3]))"
    by (simp only: swapped_message)
  then have "failures (validateSequence [e2, e1, e3]) \<noteq> []" by auto
  then have "\<not> passed (validateSequence [e2, e1, e3])"
    by (simp add: validateSequence_def Let_def)
  with ordered swapped show ?thesis by blast
qed

section \<open>Properties of the matcher\<close>

lemma state_at_0: "state_at prev rest 0 = (prev, rest)"
  by (simp add: state_at_def)

lemma state_at_Suc: "state_at prev (c # cs) (Suc k) = state_at (Some c) cs k"
  by (cases k) (simp_all add: state_at_def)

lemma state_at_length: "k \<le> length rest \<Longrightarrow> length (snd (state_at prev rest k)) = length rest - k"
  by (simp add: state_at_def)

lemma search_None:
  "search ic r prev rest i = None \<longleftrightarrow> (\<forall>k\<le>length rest. ms ic r (state_at prev rest k) = [])"
proof (induction rest arbitrary: prev i)
  case Nil
  then show ?case by (simp add: state_at_0 split: list.splits)
next
  case (Cons c cs)
  show ?case
  proof (cases "ms ic r (prev, c # cs)")
    case Nil
    have "(\<forall>k\<le>length (c # cs). ms ic r (state_at prev (c # cs) k) = []) \<longleftrightarrow>
          (\<forall>k\<le>length cs. ms ic r (state_at (Some c) cs k) = [])"
    proof
      assume a: "\<forall>k\<le>length (c # cs). ms ic r (state_at prev (c # cs) k) = []"
      show "\<forall>k\<le>length cs. ms ic r (state_at (Some c) cs k) = []"
      proof (intro allI impI)
        fix k assume "k \<le> length cs"
        then have "ms ic r (state_at prev (c # cs) (Suc k)) = []" using a by simp
        then show "ms ic r (state_at (Some c) cs k) = []" by (simp only: state_at_Suc)
      qed
    next
      assume a: "\<forall>k\<le>length cs. ms ic r (state_at (Some c) cs k) = []"
      show "\<forall>k\<le>length (c # cs). ms ic r (state_at prev (c # cs) k) = []"
      proof (intro allI impI)
        fix k assume k: "k \<le> length (c # cs)"
        show "ms ic r (state_at prev (c # cs) k) = []"
        proof (cases k)
          case 0
          then show ?thesis using Nil by (simp add: state_at_0)
        next
          case (Suc j)
          then show ?thesis using a k by (simp add: state_at_Suc)
        qed
      qed
    qed
    with Nil Cons.IH [of "Some c" "Suc i"] show ?thesis by simp
  next
    case (Cons st sts)
    have "ms ic r (state_at prev (c # cs) 0) \<noteq> []" using Cons by (simp add: state_at_0)
    then have "\<not> (\<forall>k\<le>length (c # cs). ms ic r (state_at prev (c # cs) k) = [])" by blast
    with Cons show ?thesis by simp
  qed
qed

lemma search_Some:
  "search ic r prev rest i = Some (idx, st') \<Longrightarrow>
   \<exists>k\<le>length rest. idx = i + k \<and> ms ic r (state_at prev rest k) \<noteq> [] \<and>
      st' = hd (ms ic r (state_at prev rest k)) \<and>
      (\<forall>j<k. ms ic r (state_at prev rest j) = [])"
proof (induction rest arbitrary: prev i)
  case Nil
  then show ?case by (auto simp add: state_at_0 split: list.splits)
next
  case (Cons c cs)
  show ?case
  proof (cases "ms ic r (prev, c # cs)")
    case Nil
    with Cons.prems have "search ic r (Some c) cs (Suc i) = Some (idx, st')" by simp
    from Cons.IH [OF this] obtain k where k: "k \<le> length cs" "idx = Suc i + k"
      "ms ic r (state_at (Some c) cs k) \<noteq> []" "st' = hd (ms ic r (state_at (Some c) cs k))"
      "\<forall>j<k. ms ic r (state_at (Some c) cs j) = []" by blast
    have "\<forall>j<Suc k. ms ic r (state_at prev (c # cs) j) = []"
    proof (intro allI impI)
      fix j assume "j < Suc k"
      then show "ms ic r (state_at prev (c # cs) j) = []"
        using k(5) Nil by (cases j) (simp_all add: state_at_0 state_at_Suc)
    qed
    with k show ?thesis
      by (intro exI [of _ "Suc k"]) (simp add: state_at_Suc)
  next
    case (Cons st sts)
    with Cons.prems show ?thesis
      by (intro exI [of _ 0]) (simp add: state_at_0)
  qed
qed

lemma exec_index_None: "exec_index re s = None \<longleftrightarrow> (\<forall>k. \<not> matches_at re s k)"
  by (auto simp add: exec_index_def search_from_def search_None matches_at_def)

lemma exec_index_Some:
  assumes "exec_index re s = Some X"
  shows "matches_at re s X \<and> (\<forall>j<X. \<not> matches_at re s j)"
proof -
  from assms obtain st' where "search (snd re) (fst re) None s 0 = Some (X, st')"
    by (auto simp add: exec_index_def search_from_def)
  from search_Some [OF this] show ?thesis
    by (auto simp add: matches_at_def)
qed

lemma search_index_ge:
  assumes "search ic r prev rest i = Some (idx, st')"
  shows "i \<le> idx \<and> length (snd st') \<le> length rest"
proof -
  from search_Some [OF assms] obtain k where k: "k \<le> length rest" "idx = i + k"
    "ms ic r (state_at prev rest k) \<noteq> []" "st' = hd (ms ic r (state_at prev rest k))"
    by blast
  then have "st' \<in> set (ms ic r (state_at prev rest k))" by simp
  then have "length (snd st') \<le> length (snd (state_at prev rest k))" by (rule ms_shorter)
  with k show ?thesis by (simp add: state_at_length)
qed

subsection \<open>Evaluating patterns on concrete strings\<close>

lemmas rx_eval = test_def exec_index_def search_from_def cat_def lit_def js_def is_word_def
  is_space_def canon_def unit_eq_def at_boundary_def sp1_def sp0_def dashes_def
  toLowerCase_def lower_unit_def

section \<open>The pronoun-timing rule\<close>

lemma weLoop_done: "search_from s wePattern st = None \<Longrightarrow> weLoop s classPosition st"
  by (subst weLoop.simps) simp

lemma weLoop_next:
  "search_from s wePattern st = Some (idx, st') \<Longrightarrow>
   weLoop s classPosition st =
     (if classPosition = -1 \<or> int idx < classPosition then False else weLoop s classPosition st')"
  by (subst weLoop.simps) simp

lemma weLoop_late:
  "classPosition \<noteq> -1 \<Longrightarrow> classPosition \<le> int (length s - length (snd st)) \<Longrightarrow>
   weLoop s classPosition st"
proof (induction s classPosition st rule: weLoop.induct)
  case (1 lowerText classPosition st)
  show ?case
  proof (cases "search_from lowerText wePattern st")
    case None
    then show ?thesis by (rule weLoop_done)
  next
    case (Some res)
    obtain idx st' where res: "res = (idx, st')" by (cases res)
    from Some res have
      "search (snd wePattern) (fst wePattern) (fst st) (snd st)
         (length lowerText - length (snd st)) = Some (idx, st')"
      by (simp add: search_from_def)
    from search_index_ge [OF this]
    have ge: "length lowerText - length (snd st) \<le> idx"
      and le: "length (snd st') \<le> length (snd st)" by simp_all
    from ge "1.prems" have late: "\<not> (classPosition = -1 \<or> int idx < classPosition)" by simp
    from le "1.prems" have "classPosition \<le> int (length lowerText - length (snd st'))" by simp
    with "1.IH" [OF Some res [symmetric] late "1.prems"(1)] have "weLoop lowerText classPosition st'"
      by simp
    moreover from Some res have "search_from lowerText wePattern st = Some (idx, st')" by simp
    ultimately show ?thesis using late by (simp add: weLoop_next)
  qed
qed

lemma weLoop_result:
  "weLoop s classPosition (None, s) =
   (\<not> (\<exists>Y. matches_at wePattern s Y \<and> (classPosition = -1 \<or> int Y < classPosition)))"
proof (cases "search_from s wePattern (None, s)")
  case None
  then have "exec_index wePattern s = None" by (simp add: exec_index_def)
  then have "\<forall>k. \<not> matches_at wePattern s k" by (simp add: exec_index_None)
  moreover from None have "weLoop s classPosition (None, s)" by (rule weLoop_done)
  ultimately show ?thesis by simp
next
  case (Some res)
  obtain idx st' where res: "res = (idx, st')" by (cases res)
  with Some have found: "search_from s wePattern (None, s) = Some (idx, st')" by simp
  then have ex: "exec_index wePattern s = Some idx" by (simp add: exec_index_def)
  from exec_index_Some [OF ex] have here: "matches_at wePattern s idx"
    and first: "\<forall>j<idx. \<not> matches_at wePattern s j" by simp_all
  show ?thesis
  proof (cases "classPosition = -1 \<or> int idx < classPosition")
    case True
    with here have "\<exists>Y. matches_at wePattern s Y \<and> (classPosition = -1 \<or> int Y < classPosition)"
      by blast
    with True show ?thesis by (simp add: weLoop_next [OF found])
  next
    case False
    from Some res have
      "search (snd wePattern) (fst wePattern) None s 0 = Some (idx, st')"
      by (simp add: search_from_def)
    from search_Some [OF this] obtain k where k: "k \<le> length s" "idx = k"
      "ms (snd wePattern) (fst wePattern) (state_at None s k) \<noteq> []"
      "st' = hd (ms (snd wePattern) (fst wePattern) (state_at None s k))"
      by auto
    then have "st' \<in> set (ms (snd wePattern) (fst wePattern) (state_at None s k))" by simp
    then have "length (snd st') \<le> length (snd (state_at None s k))" by (rule ms_shorter)
    with k have "idx \<le> length s - length (snd st')" by (simp add: state_at_length)
    with False have "weLoop s classPosition st'" by (intro weLoop_late) simp_all
    moreover have "\<not> (\<exists>Y. matches_at wePattern s Y \<and> (classPosition = -1 \<or> int Y < classPosition))"
    proof
      assume "\<exists>Y. matches_at wePattern s Y \<and> (classPosition = -1 \<or> int Y < classPosition)"
      then obtain Y where "matches_at wePattern s Y" and "classPosition = -1 \<or> int Y < classPosition"
        by blast
      with first have "idx \<le> Y" by (meson not_le)
      with False \<open>classPosition = -1 \<or> int Y < classPosition\<close> show False by simp
    qed
    ultimately show ?thesis using False by (simp add: weLoop_next [OF found])
  qed
qed

lemma classPosition_fold:
  "(foldl (classPosition_step text) (-1) ps = -1 \<and> (\<forall>p\<in>set ps. exec_index p text = None)) \<or>
   (\<exists>X. foldl (classPosition_step text) (-1) ps = int X \<and>
        (\<exists>p\<in>set ps. exec_index p text = Some X) \<and>
        (\<forall>p\<in>set ps. \<forall>i. exec_index p text = Some i \<longrightarrow> X \<le> i))"
proof (induction ps rule: rev_induct)
  case Nil
  then show ?case by simp
next
  case (snoc p ps)
  let ?cp = "foldl (classPosition_step text) (-1) ps"
  have step: "foldl (classPosition_step text) (-1) (ps @ [p]) = classPosition_step text ?cp p"
    by simp
  show ?case
  proof (cases "exec_index p text")
    case None
    then have "classPosition_step text ?cp p = ?cp" by (simp add: classPosition_step_def)
    with snoc None show ?thesis by (auto simp add: step)
  next
    case (Some i)
    from snoc consider
        (fresh) "?cp = -1" "\<forall>q\<in>set ps. exec_index q text = None"
      | (seen) X where "?cp = int X" "\<exists>q\<in>set ps. exec_index q text = Some X"
          "\<forall>q\<in>set ps. \<forall>j. exec_index q text = Some j \<longrightarrow> X \<le> j"
      by blast
    then show ?thesis
    proof cases
      case fresh
      then have "classPosition_step text ?cp p = int i"
        by (simp add: classPosition_step_def Some)
      with fresh Some show ?thesis
        by (intro disjI2 exI [of _ i]) (auto simp add: step)
    next
      case seen
      show ?thesis
      proof (cases "i < X")
        case True
        with seen have "classPosition_step text ?cp p = int i"
          by (simp add: classPosition_step_def Some)
        with seen Some True show ?thesis
          by (intro disjI2 exI [of _ i]) (fastforce simp add: step)
      next
        case False
        with seen have "classPosition_step text ?cp p = int X"
          by (simp add: classPosition_step_def Some)
        with seen Some False show ?thesis
          by (intro disjI2 exI [of _ X]) (fastforce simp add: step)
      qed
    qed
  qed
qed

lemma classPosition_none:
  assumes "no_introduction text"
  shows "classPosition_of text = -1"
proof -
  from assms have "\<forall>p\<in>set classPatterns. exec_index p text = None"
    by (simp add: no_introduction_def exec_index_None)
  with classPosition_fold [of "text" classPatterns] show ?thesis
    by (auto simp add: classPosition_of_def)
qed

lemma classPosition_first:
  assumes "introduced_at text X"
  shows "classPosition_of text = int X"
proof -
  from assms obtain p1 where p1: "p1 \<in> set classPatterns" "matches_at p1 text X"
    and before: "\<forall>p\<in>set classPatterns. \<forall>j<X. \<not> matches_at p text j"
    by (auto simp add: introduced_at_def)
  from p1 have "exec_index p1 text \<noteq> None" by (auto simp add: exec_index_None)
  then obtain i where i: "exec_index p1 text = Some i" by blast
  from exec_index_Some [OF i] p1(2) have "i \<le> X" by (meson not_le)
  from classPosition_fold [of "text" classPatterns] i p1(1)
  obtain X' where X': "classPosition_of text = int X'"
      and p0: "\<exists>p\<in>set classPatterns. exec_index p text = Some X'"
      and least: "\<forall>p\<in>set classPatterns. \<forall>i. exec_index p text = Some i \<longrightarrow> X' \<le> i"
    by (fastforce simp add: classPosition_of_def)
  from least i p1(1) \<open>i \<le> X\<close> have "X' \<le> X" by fastforce
  from p0 obtain p where "p \<in> set classPatterns" "exec_index p text = Some X'" by blast
  with exec_index_Some [of p "text" X'] before have "X \<le> X'" by (meson not_le)
  with \<open>X' \<le> X\<close> X' show ?thesis by simp
qed

subsection \<open>Lowering and matching\<close>

lemma toLowerCase_ascii_cased: "ascii_cased text \<Longrightarrow> toLowerCase text = map low1 text"
  by (induction "text") (simp_all add: ascii_cased_def toLowerCase_def lower_unit_def low1_def)

lemma canon_low1: "canon (low1 c) = canon c"
  by (simp add: canon_def low1_def)

lemma is_space_low1: "is_space (low1 c) = is_space c"
  by (auto simp add: is_space_def low1_def)

lemma is_word_low1: "is_word (low1 c) = is_word c"
  by (auto simp add: is_word_def low1_def)

lemma citem_ok_low1: "citem_ok True it (low1 c) = citem_ok True it c"
  by (cases it) (simp_all add: unit_eq_def canon_low1 is_space_low1)

lemma atom_ok_low1: "atom_ok True a (low1 c) = atom_ok True a c"
  by (cases a) (simp_all add: unit_eq_def canon_low1 citem_ok_low1)

lemma star_greedy_low1:
  "star_greedy (atom_ok True a) (low_state st) = map low_state (star_greedy (atom_ok True a) st)"
proof (induction "atom_ok True a" st rule: star_greedy.induct)
  case (1 prev)
  then show ?case by (simp add: low_state_def)
next
  case (2 prev c cs)
  then show ?case by (simp add: low_state_def atom_ok_low1)
qed

lemma star_lazy_low1:
  "star_lazy (atom_ok True a) (low_state st) = map low_state (star_lazy (atom_ok True a) st)"
proof (induction "atom_ok True a" st rule: star_lazy.induct)
  case (1 prev)
  then show ?case by (simp add: low_state_def)
next
  case (2 prev c cs)
  then show ?case by (simp add: low_state_def atom_ok_low1)
qed

lemma at_boundary_low1: "at_boundary (low_state st) = at_boundary st"
  by (cases st) (simp add: at_boundary_def low_state_def is_word_low1
      split: option.splits list.splits)

lemma ms_low1: "ms True r (low_state st) = map low_state (ms True r st)"
proof (induction r arbitrary: st)
  case (Atom a)
  show ?case
  proof (cases st)
    case (Pair p rest)
    then show ?thesis by (cases rest) (simp_all add: low_state_def atom_ok_low1)
  qed
next
  case (Seq r1 r2)
  then show ?case by (simp add: map_concat comp_def)
next
  case (Star a)
  then show ?case by (simp add: star_greedy_low1)
next
  case (Plus a)
  have g: "star_greedy (atom_ok True a) (Some (low1 c), map low1 cs) =
        map low_state (star_greedy (atom_ok True a) (Some c, cs))" for c cs
    using star_greedy_low1 [of a "(Some c, cs)"] by (simp add: low_state_def)
  show ?case
  proof (cases st)
    case (Pair p rest)
    with g show ?thesis by (cases rest) (simp_all add: low_state_def atom_ok_low1)
  qed
next
  case (LazyStar a)
  then show ?case by (simp add: star_lazy_low1)
next
  case WordB
  then show ?case by (simp add: at_boundary_low1)
next
  case Bol
  then show ?case by (simp add: low_state_def)
qed simp_all

lemma state_at_low1:
  "k \<le> length s \<Longrightarrow> state_at None (map low1 s) k = low_state (state_at None s k)"
  by (simp add: state_at_def low_state_def drop_map)

lemma matches_at_low1:
  "snd re \<Longrightarrow> matches_at re (map low1 s) k = matches_at re s k"
  by (auto simp add: matches_at_def state_at_low1 ms_low1)

lemma pronoun_at_lowered:
  "ascii_cased text \<Longrightarrow> pronoun_at (toLowerCase text) Y = pronoun_at text Y"
  by (simp add: pronoun_at_def toLowerCase_ascii_cased matches_at_low1 wePattern_def)

text \<open>
  C1, as the code has it. When no introduction pattern matches, \<open>hasValidWeTiming\<close> is
  true exactly when the lowered body has no plural pronoun at all: the guard
  \<^verbatim>\<open>classPosition === -1\<close> rejects every pronoun. When some introduction pattern
  matches, \<open>X\<close> is the earliest matching offset, and the body has no U+0130 and no
  Kelvin sign (lowering it then moves no code unit and turns none but A to Z into an
  ASCII letter), \<open>hasValidWeTiming\<close> is false exactly when a plural pronoun occurs in
  the body at an offset strictly before \<open>X\<close>.
\<close>

theorem hasValidWeTiming_rule:
  "(no_introduction text \<longrightarrow>
      hasValidWeTiming text = (\<not> (\<exists>Y. pronoun_at (toLowerCase text) Y))) \<and>
   (introduced_at text X \<and> ascii_cased text \<longrightarrow>
      (hasValidWeTiming text = False) = (\<exists>Y<X. pronoun_at text Y))"
proof (intro conjI impI)
  assume "no_introduction text"
  then have "classPosition_of text = -1" by (rule classPosition_none)
  then show "hasValidWeTiming text = (\<not> (\<exists>Y. pronoun_at (toLowerCase text) Y))"
    by (simp add: hasValidWeTiming_def Let_def weLoop_result pronoun_at_def)
next
  assume a: "introduced_at text X \<and> ascii_cased text"
  then have "classPosition_of text = int X" by (simp add: classPosition_first)
  then have "(hasValidWeTiming text = False) = (\<exists>Y<X. pronoun_at (toLowerCase text) Y)"
    by (auto simp add: hasValidWeTiming_def Let_def weLoop_result pronoun_at_def)
  with a show "(hasValidWeTiming text = False) = (\<exists>Y<X. pronoun_at text Y)"
    by (simp add: pronoun_at_lowered)
qed

lemma no_introduction_exec:
  "no_introduction text = list_all (\<lambda>p. exec_index p text = None) classPatterns"
  by (simp add: no_introduction_def exec_index_None list_all_iff)

lemma introduced_at_exec:
  assumes "list_ex (\<lambda>p. exec_index p text = Some X) classPatterns"
    and "list_all (\<lambda>p. case exec_index p text of None \<Rightarrow> True | Some i \<Rightarrow> X \<le> i) classPatterns"
  shows "introduced_at text X"
proof -
  from assms(1) obtain p0 where "p0 \<in> set classPatterns" "exec_index p0 text = Some X"
    by (auto simp add: list_ex_iff)
  then have "\<exists>p\<in>set classPatterns. matches_at p text X"
    using exec_index_Some by blast
  moreover have "\<forall>p\<in>set classPatterns. \<forall>j<X. \<not> matches_at p text j"
  proof (intro ballI allI impI)
    fix p j assume p: "p \<in> set classPatterns" and j: "j < X"
    with assms(2) have c: "case exec_index p text of None \<Rightarrow> True | Some i \<Rightarrow> X \<le> i"
      by (simp add: list_all_iff)
    show "\<not> matches_at p text j"
    proof (cases "exec_index p text")
      case None
      then show ?thesis by (simp add: exec_index_None)
    next
      case (Some i)
      with c have "X \<le> i" by simp
      with j exec_index_Some [OF Some] show ?thesis by simp
    qed
  qed
  ultimately show ?thesis by (simp add: introduced_at_def)
qed

lemma ex1_none: "list_all (\<lambda>p. exec_index p (js ''we agree'') = None) classPatterns"
  by (simp add: classPatterns_def rx_eval)

lemma ex1_we: "pronoun_at (toLowerCase (js ''we agree'')) 0"
  by (simp add: pronoun_at_def matches_at_def state_at_def wePattern_def rx_eval)

lemma ex3_found:
  "list_ex (\<lambda>p. exec_index p (js ''We like using Class'') = Some 8) classPatterns"
  by (simp add: classPatterns_def rx_eval)

lemma ex3_least:
  "list_all (\<lambda>p. case exec_index p (js ''We like using Class'') of None \<Rightarrow> True | Some i \<Rightarrow> 8 \<le> i)
     classPatterns"
  by (simp add: classPatterns_def rx_eval)

lemma ex3_we: "pronoun_at (js ''We like using Class'') 0"
  by (simp add: pronoun_at_def matches_at_def state_at_def wePattern_def rx_eval)

theorem hasValidWeTiming_rule_witness:
  "no_introduction (js ''we agree'') \<and>
   pronoun_at (toLowerCase (js ''we agree'')) 0 \<and>
   \<not> hasValidWeTiming (js ''we agree'') \<and>
   introduced_at (js ''We like using Class'') 8 \<and>
   ascii_cased (js ''We like using Class'') \<and>
   pronoun_at (js ''We like using Class'') 0 \<and>
   \<not> hasValidWeTiming (js ''We like using Class'')"
proof -
  have n1: "no_introduction (js ''we agree'')"
    by (simp only: no_introduction_exec ex1_none)
  have i2: "introduced_at (js ''We like using Class'') 8"
    using ex3_found ex3_least by (rule introduced_at_exec)
  have a2: "ascii_cased (js ''We like using Class'')" by (simp add: ascii_cased_def js_def)
  from hasValidWeTiming_rule [of "js ''we agree''" 0] n1 ex1_we
  have "\<not> hasValidWeTiming (js ''we agree'')" by blast
  moreover from hasValidWeTiming_rule [of "js ''We like using Class''" 8] i2 a2 ex3_we
  have "\<not> hasValidWeTiming (js ''We like using Class'')" by auto
  ultimately show ?thesis using n1 i2 a2 ex1_we ex3_we by simp
qed

text \<open>
  The claim as stated fails: in \<^verbatim>\<open>"we agree"\<close> no introduction pattern matches and
  \<open>hasValidWeTiming\<close> is false.
\<close>

theorem hasValidWeTiming_lenient_counterexample:
  "\<not> list_ex (\<lambda>p. test p (js ''we agree'')) classPatterns \<and>
   \<not> hasValidWeTiming (js ''we agree'')"
proof -
  have "\<not> list_ex (\<lambda>p. test p (js ''we agree'')) classPatterns"
    using ex1_none by (simp add: test_def list_all_iff list_ex_iff)
  moreover have "classPosition_of (js ''we agree'') = -1"
    using ex1_none
    by (simp add: classPosition_of_def classPatterns_def classPosition_step_def)
  then have "\<not> hasValidWeTiming (js ''we agree'')"
    by (simp add: hasValidWeTiming_def weLoop.simps wePattern_def rx_eval)
  ultimately show ?thesis by simp
qed

text \<open>
  Outside that hypothesis the loop compares offsets of the lowered body with \<open>X\<close>, an
  offset of the body itself, and each U+0130 before a pronoun moves it one code unit
  to the right. In \<open>shifted_example\<close> the pronoun is at offset 4 and the introduction
  at offset 7, and the check is true.
\<close>

lemma shifted_intro:
  "list_ex (\<lambda>p. exec_index p shifted_example = Some 7) classPatterns"
  by (simp add: shifted_example_def classPatterns_def rx_eval)

lemma shifted_least:
  "list_all (\<lambda>p. case exec_index p shifted_example of None \<Rightarrow> True | Some i \<Rightarrow> 7 \<le> i)
     classPatterns"
  by (simp add: shifted_example_def classPatterns_def rx_eval)

lemma shifted_we: "pronoun_at shifted_example 4"
  by (simp add: shifted_example_def pronoun_at_def matches_at_def state_at_def wePattern_def rx_eval)

lemma hasValidWeTiming_shifted_offsets:
  "introduced_at shifted_example 7 \<and> pronoun_at shifted_example 4 \<and>
   hasValidWeTiming shifted_example"
proof -
  have i: "introduced_at shifted_example 7"
    using shifted_intro shifted_least by (rule introduced_at_exec)
  then have cp: "classPosition_of shifted_example = 7" by (simp add: classPosition_first)
  have low: "toLowerCase shifted_example = [105, 775, 105, 775, 105, 775] @ js '' we about class.''"
    by (simp add: shifted_example_def toLowerCase_def lower_unit_def js_def)
  have "hasValidWeTiming shifted_example"
    unfolding hasValidWeTiming_def Let_def cp low
    by (simp add: weLoop.simps wePattern_def rx_eval)
  with i shifted_we show ?thesis by simp
qed

section \<open>The KLAS introduction check\<close>

lemma hasValidKlasIntro_unmentioned:
  "\<not> includes_str (toLowerCase text) (js ''klas'') \<Longrightarrow> hasValidKlasIntro text"
  by (simp add: hasValidKlasIntro_def)

lemma hasValidKlasIntro_qualified:
  "list_ex (\<lambda>pattern. test pattern text) validIntros \<Longrightarrow> hasValidKlasIntro text"
  by (simp add: hasValidKlasIntro_def Let_def)

lemma shorthand_mentions: "includes_str (toLowerCase shorthand_after_stop) (js ''klas'')"
  by (simp add: shorthand_after_stop_def rx_eval)

lemma shorthand_unqualified:
  "\<not> list_ex (\<lambda>pattern. test pattern shorthand_after_stop) validIntros"
  by (simp add: shorthand_after_stop_def validIntros_def scale_claim_def rx_eval)

lemma shorthand_present:
  "test (phrase [''klas'', ''data'', ''shows''], True) shorthand_after_stop"
  by (simp add: shorthand_after_stop_def rx_eval)

lemma shorthand_not_bad:
  "\<not> list_ex (\<lambda>pattern. test pattern shorthand_after_stop) badPatterns"
  by (simp add: shorthand_after_stop_def badPatterns_def rx_eval)

text \<open>
  C6. The body \<^verbatim>\<open>"Hi. KLAS data shows gains."\<close> mentions KLAS, has none of the
  fully-qualified introductions, and its only mention is the shorthand
  \<^verbatim>\<open>KLAS data shows\<close>; the claim says the check is false there. The bad patterns are
  anchored by \<^verbatim>\<open>^[^.]*\<close>, so they only see a shorthand before the first full stop, and
  \<open>hasValidKlasIntro\<close> is true on this body.
\<close>

theorem hasValidKlasIntro_shorthand_after_full_stop:
  "includes_str (toLowerCase shorthand_after_stop) (js ''klas'') \<and>
   \<not> list_ex (\<lambda>pattern. test pattern shorthand_after_stop) validIntros \<and>
   test (phrase [''klas'', ''data'', ''shows''], True) shorthand_after_stop \<and>
   hasValidKlasIntro shorthand_after_stop"
  using shorthand_mentions shorthand_unqualified shorthand_present shorthand_not_bad
  by (simp add: hasValidKlasIntro_def Let_def)

section \<open>Properties of the contact ranking\<close>

lemma startsWith_iff: "startsWith s p \<longleftrightarrow> (\<exists>b. s = p @ b)"
  by (induction s p rule: startsWith.induct) auto

lemma includes_str_iff: "includes_str s p \<longleftrightarrow> (\<exists>a b. s = a @ p @ b)"
proof (induction s)
  case Nil
  then show ?case by auto
next
  case (Cons c cs)
  show ?case
  proof
    assume "includes_str (c # cs) p"
    then consider "startsWith (c # cs) p" | "includes_str cs p" by auto
    then show "\<exists>a b. c # cs = a @ p @ b"
    proof cases
      case 1
      then obtain b where "c # cs = p @ b" by (auto simp add: startsWith_iff)
      then have "c # cs = [] @ p @ b" by simp
      then show ?thesis by blast
    next
      case 2
      with Cons obtain a b where "cs = a @ p @ b" by blast
      then have "c # cs = (c # a) @ p @ b" by simp
      then show ?thesis by blast
    qed
  next
    assume "\<exists>a b. c # cs = a @ p @ b"
    then obtain a b where ab: "c # cs = a @ p @ b" by blast
    show "includes_str (c # cs) p"
    proof (cases a)
      case Nil
      with ab have "startsWith (c # cs) p" by (auto simp add: startsWith_iff)
      then show ?thesis by simp
    next
      case (Cons a0 a')
      with ab have "cs = a' @ p @ b" by simp
      with Cons.IH have "includes_str cs p" by blast
      then show ?thesis by simp
    qed
  qed
qed

lemma toLowerCase_append: "toLowerCase (a @ b) = toLowerCase a @ toLowerCase b"
  by (simp add: toLowerCase_def)

lemma includes_str_lower:
  assumes "includes_str s p"
  shows "includes_str (toLowerCase s) (toLowerCase p)"
proof -
  from assms obtain a b where "s = a @ p @ b" by (auto simp add: includes_str_iff)
  then have "toLowerCase s = toLowerCase a @ toLowerCase p @ toLowerCase b"
    by (simp add: toLowerCase_append)
  then show ?thesis unfolding includes_str_iff by blast
qed

lemma includes_str_left: "includes_str s p \<Longrightarrow> includes_str (s @ t) p"
proof -
  assume "includes_str s p"
  then obtain a b where "s = a @ p @ b" by (auto simp add: includes_str_iff)
  then have "s @ t = a @ p @ (b @ t)" by simp
  then show ?thesis unfolding includes_str_iff by blast
qed

lemma title_keyword_in_combined:
  assumes "includes_str (title c) kw"
  shows "includes_str (toLowerCase (title c @ js '' '' @ persona_match c)) (toLowerCase kw)"
  using assms by (intro includes_str_lower includes_str_left)

lemma ceo_excluded:
  assumes "includes_str (title c) (js ''CEO'')"
  shows "isExcluded c"
proof -
  have "js ''CEO'' \<in> set EXCLUDED_KEYWORDS" by (simp add: EXCLUDED_KEYWORDS_def)
  with title_keyword_in_combined [OF assms] show ?thesis
    unfolding isExcluded_def Let_def list_ex_iff by blast
qed

lemma director_selected:
  assumes "title c = js ''Director of Clinical Education''" and "\<not> isExcluded c"
  shows "shouldAutoSelect c"
proof -
  have "includes_str (title c) (js ''Director of Clinical Education'')"
    unfolding assms(1) includes_str_iff by (intro exI [of _ "[]"]) simp
  from title_keyword_in_combined [OF this]
  have "includes_str (toLowerCase (title c @ js '' '' @ persona_match c))
          (toLowerCase (js ''Director of Clinical Education''))" .
  moreover have "js ''Director of Clinical Education'' \<in> set ALL_PRIORITY_KEYWORDS"
    by (simp add: ALL_PRIORITY_KEYWORDS_def TIER_4_KEYWORDS_def)
  ultimately show ?thesis
    using assms(2) unfolding shouldAutoSelect_def Let_def list_ex_iff by auto
qed

lemma getPriorityTier_None: "getPriorityTier c = None \<longleftrightarrow> isExcluded c"
  by (simp add: getPriorityTier_def Let_def)

lemma compareContacts_refl: "compareContacts a a \<le> 0"
  by (simp add: compareContacts_def split: option.splits)

lemma compareContacts_trans:
  "compareContacts a b \<le> 0 \<Longrightarrow> compareContacts b c \<le> 0 \<Longrightarrow> compareContacts a c \<le> 0"
  by (auto simp add: compareContacts_def split: option.splits if_splits)

lemma compareContacts_total: "compareContacts a b \<le> 0 \<or> compareContacts b a \<le> 0"
  by (auto simp add: compareContacts_def split: option.splits if_splits)

lemma set_sort_insert: "set (sort_insert cmp x ys) = insert x (set ys)"
  by (induction ys) auto

lemma length_sort_insert: "length (sort_insert cmp x ys) = Suc (length ys)"
  by (induction ys) auto

lemma set_stable_sort: "set (stable_sort cmp xs) = set xs"
  by (induction xs) (simp_all add: stable_sort_def set_sort_insert)

lemma length_stable_sort: "length (stable_sort cmp xs) = length xs"
  by (induction xs) (simp_all add: stable_sort_def length_sort_insert)

lemma sorted_sort_insert:
  assumes "sorted_wrt (\<lambda>a b. compareContacts a b \<le> 0) ys"
  shows "sorted_wrt (\<lambda>a b. compareContacts a b \<le> 0) (sort_insert compareContacts x ys)"
  using assms
proof (induction ys)
  case Nil
  then show ?case by simp
next
  case (Cons y ys)
  show ?case
  proof (cases "compareContacts x y \<le> 0")
    case True
    with Cons.prems show ?thesis by (auto intro: compareContacts_trans)
  next
    case False
    then have "compareContacts y x \<le> 0" using compareContacts_total [of x y] by simp
    with False Cons show ?thesis by (auto simp add: set_sort_insert)
  qed
qed

lemma sorted_sortContacts:
  "sorted_wrt (\<lambda>a b. compareContacts a b \<le> 0) (sortContacts contacts)"
  unfolding sortContacts_def stable_sort_def
  by (induction contacts) (simp_all add: sorted_sort_insert)

lemma sorted_all_before:
  assumes "sorted_wrt (\<lambda>a b. compareContacts a b \<le> 0) xs" and "0 < compareContacts y x"
  shows "all_before x y xs"
  unfolding all_before_def
proof (intro allI impI)
  fix i j assume h: "i < length xs \<and> j < length xs \<and> xs ! i = x \<and> xs ! j = y"
  show "i < j"
  proof (rule ccontr)
    assume "\<not> i < j"
    then consider "j < i" | "i = j" by linarith
    then show False
    proof cases
      case 1
      with assms(1) h have "compareContacts (xs ! j) (xs ! i) \<le> 0"
        using sorted_wrt_nth_less [of "\<lambda>a b. compareContacts a b \<le> 0" xs j i] by blast
      with h assms(2) show False by simp
    next
      case 2
      with h have "x = y" by auto
      with assms(2) compareContacts_refl [of x] show False by simp
    qed
  qed
qed

text \<open>
  C9, as the code has it. Contact ids are unique within an account. For every contact
  list with a contact whose title contains \<^verbatim>\<open>CEO\<close> and a contact titled
  \<^verbatim>\<open>Director of Clinical Education\<close> whose title and persona text contains no
  exclusion keyword: the sorted list is a rearrangement of the contacts; the CEO is not
  among the auto-selected ids and stands after every contact that is not excluded,
  whatever its stored priority; the Director is auto-selected and stands before every
  contact of its tier whose stored priority is numerically larger. The exclusion test
  reads the persona text as well as the title, so the claim needs the condition on the
  Director.
\<close>

theorem contact_ranking:
  assumes "distinct (map contact_id contacts)"
    and "ceo \<in> set contacts" and "includes_str (title ceo) (js ''CEO'')"
    and "director \<in> set contacts"
    and "title director = js ''Director of Clinical Education''"
    and "\<not> isExcluded director"
  shows "set (sortContacts contacts) = set contacts \<and>
         length (sortContacts contacts) = length contacts \<and>
         contact_id ceo \<notin> set (getAutoSelectedIds contacts) \<and>
         (\<forall>x\<in>set contacts. \<not> isExcluded x \<longrightarrow> all_before x ceo (sortContacts contacts)) \<and>
         contact_id director \<in> set (getAutoSelectedIds contacts) \<and>
         (\<forall>x\<in>set contacts.
            getPriorityTier x = getPriorityTier director \<and>
            outreach_priority director < outreach_priority x \<longrightarrow>
            all_before director x (sortContacts contacts))"
proof -
  have perm: "set (sortContacts contacts) = set contacts"
    "length (sortContacts contacts) = length contacts"
    by (simp_all add: sortContacts_def set_stable_sort length_stable_sort)
  have ex: "isExcluded ceo" using assms(3) by (rule ceo_excluded)
  then have "\<not> shouldAutoSelect ceo" by (simp add: shouldAutoSelect_def)
  have ceo_out: "contact_id ceo \<notin> set (getAutoSelectedIds contacts)"
  proof
    assume "contact_id ceo \<in> set (getAutoSelectedIds contacts)"
    then obtain c where c: "c \<in> set contacts" "shouldAutoSelect c" "contact_id c = contact_id ceo"
      by (auto simp add: getAutoSelectedIds_def)
    from assms(1) have "inj_on contact_id (set contacts)" by (simp add: distinct_map)
    with c assms(2) have "c = ceo" by (auto dest: inj_onD)
    with c \<open>\<not> shouldAutoSelect ceo\<close> show False by simp
  qed
  have ceo_last: "\<forall>x\<in>set contacts. \<not> isExcluded x \<longrightarrow> all_before x ceo (sortContacts contacts)"
  proof (intro ballI impI)
    fix x assume "x \<in> set contacts" and "\<not> isExcluded x"
    then obtain t where "getPriorityTier x = Some t"
      by (cases "getPriorityTier x") (simp_all add: getPriorityTier_None)
    moreover from ex have "getPriorityTier ceo = None" by (simp add: getPriorityTier_None)
    ultimately have "0 < compareContacts ceo x"
      by (simp add: compareContacts_def)
    with sorted_sortContacts show "all_before x ceo (sortContacts contacts)"
      by (rule sorted_all_before)
  qed
  have "shouldAutoSelect director" using assms(5,6) by (rule director_selected)
  with assms(4) have dir_in: "contact_id director \<in> set (getAutoSelectedIds contacts)"
    by (auto simp add: getAutoSelectedIds_def)
  have dir_first: "\<forall>x\<in>set contacts.
            getPriorityTier x = getPriorityTier director \<and>
            outreach_priority director < outreach_priority x \<longrightarrow>
            all_before director x (sortContacts contacts)"
  proof (intro ballI impI)
    fix x assume "x \<in> set contacts"
      and h: "getPriorityTier x = getPriorityTier director \<and>
              outreach_priority director < outreach_priority x"
    from assms(6) obtain t where "getPriorityTier director = Some t"
      by (cases "getPriorityTier director") (simp_all add: getPriorityTier_None)
    with h have "0 < compareContacts x director"
      by (simp add: compareContacts_def)
    with sorted_sortContacts show "all_before director x (sortContacts contacts)"
      by (rule sorted_all_before)
  qed
  from perm ceo_out ceo_last dir_in dir_first show ?thesis by blast
qed

lemmas contact_eval = isExcluded_def shouldAutoSelect_def getPriorityTier_def
  EXCLUDED_KEYWORDS_def ALL_PRIORITY_KEYWORDS_def TIER_1_KEYWORDS_def TIER_2_KEYWORDS_def
  TIER_3_KEYWORDS_def TIER_4_KEYWORDS_def toLowerCase_def lower_unit_def js_def Let_def

lemma cy_not_excluded: "\<not> isExcluded cy_director"
  by (simp add: cy_director_def contact_eval)

lemma bob_tier: "getPriorityTier bob_educator = getPriorityTier cy_director"
  by (simp add: getPriorityTier_def isExcluded_def Let_def bob_educator_def cy_director_def)

lemma bob_not_excluded: "\<not> isExcluded bob_educator"
  using cy_not_excluded by (simp add: isExcluded_def Let_def bob_educator_def cy_director_def)

theorem contact_ranking_witness:
  "distinct (map contact_id [ann_ceo, bob_educator, cy_director]) \<and>
   includes_str (title ann_ceo) (js ''CEO'') \<and>
   title cy_director = js ''Director of Clinical Education'' \<and>
   \<not> isExcluded cy_director \<and>
   contact_id ann_ceo \<notin> set (getAutoSelectedIds [ann_ceo, bob_educator, cy_director]) \<and>
   all_before cy_director ann_ceo (sortContacts [ann_ceo, bob_educator, cy_director]) \<and>
   all_before bob_educator ann_ceo (sortContacts [ann_ceo, bob_educator, cy_director]) \<and>
   contact_id cy_director \<in> set (getAutoSelectedIds [ann_ceo, bob_educator, cy_director]) \<and>
   all_before cy_director bob_educator (sortContacts [ann_ceo, bob_educator, cy_director])"
proof -
  have d: "distinct (map contact_id [ann_ceo, bob_educator, cy_director])"
    by (simp add: ann_ceo_def bob_educator_def cy_director_def js_def)
  have c: "includes_str (title ann_ceo) (js ''CEO'')"
    by (simp add: ann_ceo_def js_def)
  have t: "title cy_director = js ''Director of Clinical Education''"
    by (simp add: cy_director_def)
  have p: "outreach_priority cy_director < outreach_priority bob_educator"
    by (simp add: cy_director_def bob_educator_def)
  from contact_ranking [OF d _ c _ t cy_not_excluded] bob_tier p bob_not_excluded cy_not_excluded
  show ?thesis using d c t by simp
qed

text \<open>
  The claim as stated fails: a contact titled \<^verbatim>\<open>Director of Clinical Education\<close>
  whose persona text is \<^verbatim>\<open>CNO office\<close> is excluded and is not auto-selected.
\<close>

theorem director_excluded_counterexample:
  "title dee_cno_director = js ''Director of Clinical Education'' \<and>
   includes_str (title ann_ceo) (js ''CEO'') \<and>
   contact_id dee_cno_director \<notin> set (getAutoSelectedIds [ann_ceo, dee_cno_director])"
proof -
  have "isExcluded dee_cno_director"
    by (simp add: dee_cno_director_def contact_eval)
  then have "\<not> shouldAutoSelect dee_cno_director" by (simp add: shouldAutoSelect_def)
  moreover have "contact_id ann_ceo \<noteq> contact_id dee_cno_director"
    by (simp add: ann_ceo_def dee_cno_director_def js_def)
  ultimately show ?thesis
    by (simp add: getAutoSelectedIds_def) (simp add: dee_cno_director_def ann_ceo_def js_def)
qed

section \<open>Properties of the storage\<close>

lemma map_of_map_set: "map_of (map_set k v m) k = Some v"
  by (induction m) auto

lemma map_of_removed: "map_of (filter (\<lambda>p. fst p \<noteq> k) m) k = None"
  by (induction m) auto

lemma store_ok_removed:
  "store_ok store \<Longrightarrow> k \<notin> saved_id ` snd ` set (filter (\<lambda>p. fst p \<noteq> k) store)"
  by (induction store) (auto simp add: store_ok_def)

lemma store_ok_saveEmail:
  "store_ok store \<Longrightarrow> store_ok (snd (saveEmail data uuid now store))"
  by (induction store) (auto simp add: store_ok_def saveEmail_def Let_def)

lemma store_ok_deleteEmail:
  "store_ok store \<Longrightarrow> store_ok (snd (deleteEmail k store))"
  by (induction store) (auto simp add: store_ok_def deleteEmail_def map_delete_def)

lemma listEmails_ids:
  "set (map meta_id (listEmails account store)) \<subseteq> saved_id ` snd ` set store"
  by (cases account) (auto simp add: listEmails_def Let_def)

text \<open>
  C8. In every store in which each record sits under its own id: \<open>saveEmail\<close> returns
  a record with the six fields of the input, the generated id and both timestamps;
  \<open>getEmail\<close> of that id then returns that record; \<open>deleteEmail\<close> of that id returns
  true; after it \<open>getEmail\<close> of the id returns nothing, and \<open>listEmails\<close>, without a
  filter or with the account of the input as filter, has no record with that id.
\<close>

theorem storage_round_trip:
  assumes "store_ok store"
    and "saveEmail data uuid now store = (saved, store1)"
    and "deleteEmail uuid store1 = (deleted, store2)"
  shows "accountIndex saved = accountIndex data \<and>
         accountName saved = accountName data \<and>
         SaveEmailInput.contactId saved = SaveEmailInput.contactId data \<and>
         SaveEmailInput.contactName saved = SaveEmailInput.contactName data \<and>
         contactTitle saved = contactTitle data \<and>
         emails saved = emails data \<and>
         saved_id saved = uuid \<and> createdAt saved = now \<and> updatedAt saved = now \<and>
         getEmail uuid store1 = Some saved \<and>
         deleted \<and>
         getEmail uuid store2 = None \<and>
         uuid \<notin> set (map meta_id (listEmails None store2)) \<and>
         uuid \<notin> set (map meta_id (listEmails (Some (accountIndex data)) store2))"
proof -
  from assms(2) have saved: "saved = fst (saveEmail data uuid now store)"
    and store1: "store1 = map_set uuid saved store"
    by (auto simp add: saveEmail_def Let_def)
  have fields: "accountIndex saved = accountIndex data \<and>
         accountName saved = accountName data \<and>
         SaveEmailInput.contactId saved = SaveEmailInput.contactId data \<and>
         SaveEmailInput.contactName saved = SaveEmailInput.contactName data \<and>
         contactTitle saved = contactTitle data \<and>
         emails saved = emails data \<and>
         saved_id saved = uuid \<and> createdAt saved = now \<and> updatedAt saved = now"
    by (simp add: saved saveEmail_def Let_def)
  have get1: "getEmail uuid store1 = Some saved"
    by (simp add: getEmail_def store1 map_of_map_set)
  from assms(3) have deleted: "deleted = (map_of store1 uuid \<noteq> None)"
    and store2: "store2 = filter (\<lambda>p. fst p \<noteq> uuid) store1"
    by (auto simp add: deleteEmail_def map_delete_def)
  from deleted get1 have del: "deleted" by (simp add: getEmail_def)
  have get2: "getEmail uuid store2 = None"
    by (simp add: getEmail_def store2 map_of_removed)
  from assms(1,2) have "store_ok store1"
    using store_ok_saveEmail [of store data uuid now] by simp
  then have "uuid \<notin> saved_id ` snd ` set store2"
    unfolding store2 by (rule store_ok_removed)
  with listEmails_ids have gone: "uuid \<notin> set (map meta_id (listEmails account store2))" for account
    by blast
  from fields get1 del get2 gone [of None] gone [of "Some (accountIndex data)"]
  show ?thesis by blast
qed

theorem storage_round_trip_witness:
  "store_ok sample_store \<and>
   getEmail (js ''uuid-1'')
     (snd (saveEmail sample_input (js ''uuid-1'') (js ''2026-01-02T00:00:00.000Z'') sample_store)) =
     Some (fst (saveEmail sample_input (js ''uuid-1'') (js ''2026-01-02T00:00:00.000Z'') sample_store)) \<and>
   fst (deleteEmail (js ''uuid-1'')
     (snd (saveEmail sample_input (js ''uuid-1'') (js ''2026-01-02T00:00:00.000Z'') sample_store))) \<and>
   getEmail (js ''uuid-1'') (snd (deleteEmail (js ''uuid-1'')
     (snd (saveEmail sample_input (js ''uuid-1'') (js ''2026-01-02T00:00:00.000Z'') sample_store)))) = None \<and>
   js ''uuid-1'' \<notin> set (map meta_id (listEmails None (snd (deleteEmail (js ''uuid-1'')
     (snd (saveEmail sample_input (js ''uuid-1'') (js ''2026-01-02T00:00:00.000Z'') sample_store)))))) \<and>
   map meta_id (listEmails (Some 7) (snd (deleteEmail (js ''uuid-1'')
     (snd (saveEmail sample_input (js ''uuid-1'') (js ''2026-01-02T00:00:00.000Z'') sample_store))))) =
     [js ''uuid-0'']"
proof -
  have ok0: "store_ok sample_store"
    by (simp add: sample_store_def store_ok_def saveEmail_def Let_def)
  have left: "map meta_id (listEmails (Some 7) (snd (deleteEmail (js ''uuid-1'')
     (snd (saveEmail sample_input (js ''uuid-1'') (js ''2026-01-02T00:00:00.000Z'') sample_store))))) =
     [js ''uuid-0'']"
    by (simp add: sample_store_def saveEmail_def deleteEmail_def map_delete_def listEmails_def
        Let_def sample_input_def js_eq_iff)
  from storage_round_trip [OF ok0 prod.collapse [symmetric] prod.collapse [symmetric]] ok0 left
  show ?thesis by blast
qed

section \<open>Properties of the generation orchestrator\<close>

lemma parseAccumulated_first_parseable:
  "parseAccumulated parse accumulated =
     (case first_parseable parse (strategy_candidates accumulated) of
        Some v \<Rightarrow> Inr v
      | None \<Rightarrow> Inl (js ''Failed to parse email sequence from response''))"
  by (simp add: parseAccumulated_def strategy_candidates_def bracket_span_def Let_def
      split: option.splits)

subsection \<open>Literals, white space and first occurrences\<close>

lemma ms_lit:
  "ms False (lit w) (prev, rest) =
     (if startsWith rest (js w)
      then [(if w = [] then prev else Some (of_char (last w)), drop (length w) rest)]
      else [])"
proof (induction w arbitrary: prev rest)
  case Nil
  then show ?case by (simp add: lit_def js_def)
next
  case (Cons a w)
  have step: "lit (a # w) = Seq (Atom (Chr (of_char a))) (lit w)" by (simp add: lit_def)
  show ?case
  proof (cases rest)
    case Nil
    then show ?thesis by (simp add: step js_def)
  next
    case (Cons c cs)
    with Cons.IH [of "Some c" cs] show ?thesis
      by (auto simp add: step js_def unit_eq_def)
  qed
qed

lemma snd_after_spaces: "snd (after_spaces (prev, rest)) = dropWhile is_space rest"
  by (induction rest arbitrary: prev) simp_all

lemma space_atom: "atom_ok ic (Cls [Space]) = is_space"
  by (rule ext) simp

lemma any_atom: "atom_ok ic any_unit = (\<lambda>c. True)"
  by (rule ext) (simp add: any_unit_def)

lemma greedy_spaces_then:
  assumes "\<And>p c cs. is_space c \<Longrightarrow> f (p, c # cs) = []"
  shows "concat (map f (star_greedy is_space (prev, rest))) = f (after_spaces (prev, rest))"
proof (induction rest arbitrary: prev)
  case Nil
  then show ?case by simp
next
  case (Cons c cs)
  then show ?case using assms [of c prev cs] by simp
qed

lemma greedy_spaces_hd:
  "star_greedy is_space (prev, rest) \<noteq> [] \<and>
   hd (star_greedy is_space (prev, rest)) = after_spaces (prev, rest)"
proof (induction rest arbitrary: prev)
  case Nil
  then show ?case by simp
next
  case (Cons c cs)
  from Cons [of "Some c"] show ?case by (simp add: hd_append)
qed

lemma greedy_spaces_member:
  "st' \<in> set (star_greedy is_space (prev, rest)) \<Longrightarrow>
   \<exists>w. list_all is_space w \<and> snd st' = w @ dropWhile is_space rest"
proof (induction rest arbitrary: prev)
  case Nil
  then show ?case by simp
next
  case (Cons c cs)
  show ?case
  proof (cases "is_space c")
    case True
    with Cons.prems have "st' \<in> set (star_greedy is_space (Some c, cs)) \<or> st' = (prev, c # cs)"
      by auto
    then show ?thesis
    proof
      assume "st' \<in> set (star_greedy is_space (Some c, cs))"
      from Cons.IH [OF this] True show ?thesis by simp
    next
      assume "st' = (prev, c # cs)"
      then have "snd st' = takeWhile is_space (c # cs) @ dropWhile is_space (c # cs)" by simp
      moreover have "list_all is_space (takeWhile is_space (c # cs))"
        by (simp add: list_all_iff) (meson set_takeWhileD)
      ultimately show ?thesis by blast
    qed
  next
    case False
    with Cons.prems have "st' = (prev, c # cs)" by simp
    with False show ?thesis by (intro exI [of _ "[]"]) simp
  qed
qed

lemma first_occurrence_includes: "(first_occurrence p s = None) = (\<not> includes_str s p)"
  by (induction s) auto

lemma first_occurrence_bound: "first_occurrence p s = Some j \<Longrightarrow> j \<le> length s"
  by (induction s arbitrary: j) (auto split: if_splits)

lemma startsWith_ticks: "c \<noteq> 96 \<Longrightarrow> \<not> startsWith (c # cs) ticks"
  by (simp add: ticks_def)

lemma first_occurrence_skip:
  "96 \<notin> set w \<Longrightarrow>
   first_occurrence ticks (w @ r) = map_option (\<lambda>j. length w + j) (first_occurrence ticks r)"
proof (induction w)
  case Nil
  then show ?case by (simp add: option.map_ident)
next
  case (Cons c w)
  then have "\<not> startsWith (c # w @ r) ticks" by (simp add: startsWith_ticks)
  with Cons show ?case by (simp add: option.map_comp comp_def)
qed

lemma includes_ticks_skip: "96 \<notin> set w \<Longrightarrow> includes_str (w @ r) ticks = includes_str r ticks"
  by (induction w) (simp_all add: startsWith_ticks)

lemma includes_str_drop: "includes_str (drop k s) p \<Longrightarrow> includes_str s p"
proof -
  assume "includes_str (drop k s) p"
  then obtain a b where "drop k s = a @ p @ b" by (auto simp add: includes_str_iff)
  then have "s = (take k s @ a) @ p @ b" by (metis append_assoc append_take_drop_id)
  then show ?thesis unfolding includes_str_iff by blast
qed

lemma is_space_not_tick: "is_space c \<Longrightarrow> c \<noteq> 96"
  by (auto simp add: is_space_def)

lemma spaces_no_tick: "list_all is_space w \<Longrightarrow> 96 \<notin> set w"
  by (auto simp add: list_all_iff dest: is_space_not_tick)

lemma trim_spaces_left: "list_all is_space w \<Longrightarrow> trim (w @ x) = trim x"
  by (simp add: trim_def list_all_iff)

subsection \<open>The code-block pattern\<close>

lemma ms_fence:
  "ms False fence (prev, rest) = (if startsWith rest ticks then [(Some 96, drop 3 rest)] else [])"
  unfolding fence_def ms_lit by (simp add: js_def ticks_def numeral_3_eq_3 [symmetric])

lemma ms_spaces_eps: "ms False (Seq sp0 Eps) st = star_greedy is_space st"
proof -
  have "ms False Eps = (\<lambda>st. [st])" by (rule ext) simp
  then show ?thesis by (simp add: sp0_def space_atom)
qed

lemma pre_states:
  "ms False (cat [fence, Opt (lit ''json''), sp0]) (prev, rest) =
     (if startsWith rest ticks
      then (if startsWith (drop 3 rest) (js ''json'')
            then star_greedy is_space (Some 110, drop 4 (drop 3 rest)) else []) @
           star_greedy is_space (Some 96, drop 3 rest)
      else [])"
proof -
  have "cat [fence, Opt (lit ''json''), sp0] = Seq fence (Seq (Opt (lit ''json'')) (Seq sp0 Eps))"
    by (simp add: cat_def)
  then show ?thesis
    by (simp add: ms_fence ms_lit ms_spaces_eps del: ms.simps(3) add: ms.simps(3) [of False fence]
        ms.simps(3) [of False "Opt (lit ''json'')"])
qed

lemma untag_split: "\<exists>w. 96 \<notin> set w \<and> a = w @ untag a"
proof (cases "startsWith a (js ''json'')")
  case True
  then obtain b where "a = js ''json'' @ b" by (auto simp add: startsWith_iff)
  then show ?thesis by (intro exI [of _ "js ''json''"]) (simp add: untag_def js_def)
next
  case False
  then show ?thesis by (intro exI [of _ "[]"]) (simp add: untag_def)
qed

lemma spaces_split: "\<exists>w. 96 \<notin> set w \<and> a = w @ dropWhile is_space a"
proof -
  have "list_all is_space (takeWhile is_space a)"
    by (simp add: list_all_iff) (meson set_takeWhileD)
  then have "96 \<notin> set (takeWhile is_space a)" by (rule spaces_no_tick)
  then show ?thesis by (intro exI [of _ "takeWhile is_space a"]) simp
qed

lemma content_split: "\<exists>w. 96 \<notin> set w \<and> drop 3 rest = w @ content_of rest"
proof -
  obtain w1 where w1: "96 \<notin> set w1" "drop 3 rest = w1 @ untag (drop 3 rest)"
    using untag_split by blast
  obtain w2 where w2: "96 \<notin> set w2" "untag (drop 3 rest) = w2 @ content_of rest"
    unfolding content_of_def using spaces_split by blast
  from w1 w2 have "drop 3 rest = (w1 @ w2) @ content_of rest" by simp
  moreover from w1 w2 have "96 \<notin> set (w1 @ w2)" by simp
  ultimately show ?thesis by blast
qed

lemma greedy_member_content:
  assumes "st' \<in> set (star_greedy is_space (q, a))"
    and "\<exists>w. 96 \<notin> set w \<and> dropWhile is_space a = w @ r"
  shows "\<exists>w. 96 \<notin> set w \<and> snd st' = w @ r"
proof -
  from greedy_spaces_member [OF assms(1)] obtain w1 where
    w1: "list_all is_space w1" "snd st' = w1 @ dropWhile is_space a" by blast
  from assms(2) obtain w2 where w2: "96 \<notin> set w2" "dropWhile is_space a = w2 @ r" by blast
  from w1 w2 have "snd st' = (w1 @ w2) @ r" by simp
  moreover from w1(1) w2(1) have "96 \<notin> set (w1 @ w2)" by (simp add: spaces_no_tick)
  ultimately show ?thesis by blast
qed

lemma pre_members:
  assumes "p \<in> set (ms False (cat [fence, Opt (lit ''json''), sp0]) (prev, rest))"
  shows "\<exists>w. 96 \<notin> set w \<and> snd p = w @ content_of rest"
proof -
  let ?a = "drop 3 rest"
  from assms consider
      (tagged) "startsWith ?a (js ''json'')" "p \<in> set (star_greedy is_space (Some 110, drop 4 ?a))"
    | (plain) "p \<in> set (star_greedy is_space (Some 96, ?a))"
    by (auto simp add: pre_states split: if_splits)
  then show ?thesis
  proof cases
    case tagged
    then have "dropWhile is_space (drop 4 ?a) = [] @ content_of rest"
      by (simp add: content_of_def untag_def)
    then have "\<exists>w. 96 \<notin> set w \<and> dropWhile is_space (drop 4 ?a) = w @ content_of rest"
      by (intro exI [of _ "[]"]) simp
    with tagged(2) show ?thesis by (rule greedy_member_content)
  next
    case plain
    show ?thesis
    proof (cases "startsWith ?a (js ''json'')")
      case True
      then obtain b where b: "?a = js ''json'' @ b" by (auto simp add: startsWith_iff)
      from True have "untag ?a = drop 4 ?a" by (simp add: untag_def)
      with b have u: "untag ?a = b" by (simp add: js_def)
      from b have d: "dropWhile is_space ?a = js ''json'' @ b"
        by (simp add: js_def is_space_def)
      obtain w where w: "96 \<notin> set w" "b = w @ dropWhile is_space b" using spaces_split by blast
      have "dropWhile is_space ?a = (js ''json'' @ w) @ content_of rest"
        using d w(2) by (simp add: content_of_def u)
      moreover have "96 \<notin> set (js ''json'' @ w)" using w(1) by (simp add: js_def)
      ultimately have "\<exists>w. 96 \<notin> set w \<and> dropWhile is_space ?a = w @ content_of rest" by blast
      with plain show ?thesis by (rule greedy_member_content)
    next
      case False
      then have "dropWhile is_space ?a = [] @ content_of rest"
        by (simp add: content_of_def untag_def)
      then have "\<exists>w. 96 \<notin> set w \<and> dropWhile is_space ?a = w @ content_of rest"
        by (intro exI [of _ "[]"]) simp
      with plain show ?thesis by (rule greedy_member_content)
    qed
  qed
qed

lemma pre_hd:
  assumes "startsWith rest ticks"
  shows "ms False (cat [fence, Opt (lit ''json''), sp0]) (prev, rest) \<noteq> [] \<and>
         snd (hd (ms False (cat [fence, Opt (lit ''json''), sp0]) (prev, rest))) = content_of rest"
proof (cases "startsWith (drop 3 rest) (js ''json'')")
  case True
  with assms greedy_spaces_hd [of "Some 110" "drop 4 (drop 3 rest)"] show ?thesis
    by (simp add: pre_states hd_append snd_after_spaces content_of_def untag_def)
next
  case False
  with assms greedy_spaces_hd [of "Some 96" "drop 3 rest"] show ?thesis
    by (simp add: pre_states snd_after_spaces content_of_def untag_def)
qed

lemma lazy_fence:
  "(case concat (map (\<lambda>g. map (\<lambda>e. (p0, g)) (ms False fence g)) (star_lazy (\<lambda>c. True) (q, r))) of
      [] \<Rightarrow> None
    | pg # _ \<Rightarrow> Some (fst pg, length (snd (snd pg)))) =
   map_option (\<lambda>j. (p0, length r - j)) (first_occurrence ticks r)"
proof (induction r arbitrary: q)
  case Nil
  then show ?case by (simp add: ms_fence ticks_def)
next
  case (Cons c cs)
  show ?case
  proof (cases "startsWith (c # cs) ticks")
    case True
    then show ?thesis by (simp add: ms_fence)
  next
    case False
    with Cons [of "Some c"] show ?thesis
      by (simp add: ms_fence option.map_comp comp_def)
  qed
qed

lemma case_pair_head:
  "(case xs of [] \<Rightarrow> a | (p, g) # x \<Rightarrow> f p g) =
   (case xs of [] \<Rightarrow> a | pg # x \<Rightarrow> f (fst pg) (snd pg))"
  by (cases xs) (simp_all add: case_prod_beta)

lemma concat_all_empty: "\<forall>p\<in>set ps. F p = [] \<Longrightarrow> concat (map F ps) = []"
  by (induction ps) simp_all

lemma capture_block:
  "capture_at False (cat [fence, Opt (lit ''json''), sp0]) (LazyStar any_unit) fence (prev, rest) =
   block_at rest"
proof -
  let ?pre = "cat [fence, Opt (lit ''json''), sp0]"
  let ?F = "\<lambda>p. concat (map (\<lambda>g. map (\<lambda>e. (p, g)) (ms False fence g)) (star_lazy (\<lambda>c. True) p))"
  have unfolded: "capture_at False ?pre (LazyStar any_unit) fence (prev, rest) =
      (case concat (map ?F (ms False ?pre (prev, rest))) of
         [] \<Rightarrow> None
       | pg # _ \<Rightarrow> Some (take (length (snd (fst pg)) - length (snd (snd pg))) (snd (fst pg))))"
    by (simp add: capture_at_def any_atom case_pair_head)
  have none: "?F p = []" if "first_occurrence ticks (snd p) = None" for p
    using lazy_fence [of p "fst p" "snd p"] that by (simp split: list.splits)
  have some: "\<exists>pg pgs. ?F p = pg # pgs \<and> fst pg = p \<and> length (snd (snd pg)) = length (snd p) - j"
    if "first_occurrence ticks (snd p) = Some j" for p j
    using lazy_fence [of p "fst p" "snd p"] that by (auto split: list.splits)
  show ?thesis
  proof (cases "startsWith rest ticks")
    case False
    then show ?thesis by (simp add: unfolded pre_states block_at_def)
  next
    case True
    from pre_hd [OF True, of prev] obtain p0 ps where
      ps: "ms False ?pre (prev, rest) = p0 # ps" and p0: "snd p0 = content_of rest"
      by (cases "ms False ?pre (prev, rest)") auto
    show ?thesis
    proof (cases "first_occurrence ticks (content_of rest)")
      case None
      have "concat (map ?F (p0 # ps)) = []"
      proof (rule concat_all_empty [where F = "?F"], rule ballI)
        fix p assume "p \<in> set (p0 # ps)"
        with ps have "p \<in> set (ms False ?pre (prev, rest))" by simp
        from pre_members [OF this] obtain w where "96 \<notin> set w" "snd p = w @ content_of rest"
          by blast
        then have "first_occurrence ticks (snd p) = None"
          using None by (simp add: first_occurrence_skip)
        then show "?F p = []" by (rule none)
      qed
      then have e: "concat (map ?F (ms False ?pre (prev, rest))) = []" by (simp only: ps)
      from None True show ?thesis unfolding unfolded e by (simp add: block_at_def)
    next
      case (Some j)
      with p0 have "first_occurrence ticks (snd p0) = Some j" by simp
      from some [OF this] obtain pg pgs where
        pg: "?F p0 = pg # pgs" "fst pg = p0" "length (snd (snd pg)) = length (snd p0) - j"
        by blast
      from Some have "j \<le> length (content_of rest)" by (rule first_occurrence_bound)
      with pg p0 have "take (length (snd (fst pg)) - length (snd (snd pg))) (snd (fst pg)) =
          take j (content_of rest)" by simp
      moreover have "concat (map ?F (p0 # ps)) = pg # (pgs @ concat (map ?F ps))"
        using pg(1) by simp
      then have "concat (map ?F (ms False ?pre (prev, rest))) = pg # (pgs @ concat (map ?F ps))"
        by (simp only: ps)
      ultimately show ?thesis using Some True unfolding unfolded by (simp add: block_at_def)
    qed
  qed
qed

lemma block_at_includes:
  "(block_at r \<noteq> None) = (startsWith r ticks \<and> includes_str (drop 3 r) ticks)"
proof -
  obtain w where "96 \<notin> set w" "drop 3 r = w @ content_of r" using content_split by blast
  then have "includes_str (drop 3 r) ticks = includes_str (content_of r) ticks"
    by (simp add: includes_ticks_skip)
  with first_occurrence_includes [of ticks "content_of r"] show ?thesis
    by (auto simp add: block_at_def)
qed

lemma block_at_later:
  assumes "startsWith r ticks" and "block_at r = None"
  shows "block_at (drop (Suc i) r) = None"
proof (rule ccontr)
  assume "block_at (drop (Suc i) r) \<noteq> None"
  then have "includes_str (drop 3 (drop (Suc i) r)) ticks"
    using block_at_includes [of "drop (Suc i) r"] by blast
  moreover have "drop 3 (drop (Suc i) r) = drop (Suc i) (drop 3 r)" by (simp add: add.commute)
  ultimately have "includes_str (drop (Suc i) (drop 3 r)) ticks" by (simp only:)
  then have "includes_str (drop 3 r) ticks" by (rule includes_str_drop)
  with assms(1) have "block_at r \<noteq> None" using block_at_includes [of r] by blast
  with assms(2) show False by simp
qed

lemma search_capture_block:
  "search_capture False (cat [fence, Opt (lit ''json''), sp0]) (LazyStar any_unit) fence prev t =
     (case first_occurrence ticks t of None \<Rightarrow> None | Some i \<Rightarrow> block_at (drop i t))"
proof (induction t arbitrary: prev)
  case Nil
  then show ?case by (simp add: capture_block block_at_def ticks_def)
next
  case (Cons c cs)
  show ?case
  proof (cases "startsWith (c # cs) ticks")
    case True
    show ?thesis
    proof (cases "block_at (c # cs)")
      case None
      have "block_at (drop i cs) = None" for i
        using block_at_later [OF True None, of i] by simp
      then have "(case first_occurrence ticks cs of None \<Rightarrow> None | Some i \<Rightarrow> block_at (drop i cs)) = None"
        by (simp split: option.splits)
      with None True Cons [of "Some c"] show ?thesis by (simp add: capture_block)
    next
      case (Some found)
      with True show ?thesis by (simp add: capture_block)
    qed
  next
    case False
    then have "block_at (c # cs) = None" by (simp add: block_at_def)
    with False Cons [of "Some c"] show ?thesis
      by (simp add: capture_block split: option.splits)
  qed
qed

lemma block_at_trimmed:
  assumes "startsWith r ticks"
  shows "map_option trim (block_at r) =
     (case first_occurrence ticks (untag (drop 3 r)) of
        None \<Rightarrow> None
      | Some j \<Rightarrow> Some (trim (take j (untag (drop 3 r)))))"
proof -
  let ?u = "untag (drop 3 r)"
  let ?w = "takeWhile is_space ?u"
  have sp: "list_all is_space ?w" by (simp add: list_all_iff) (meson set_takeWhileD)
  have u: "?u = ?w @ content_of r" by (simp add: content_of_def)
  have occ: "first_occurrence ticks ?u =
      map_option (\<lambda>j. length ?w + j) (first_occurrence ticks (content_of r))"
    using first_occurrence_skip [OF spaces_no_tick [OF sp], of "content_of r"] u by simp
  show ?thesis
  proof (cases "first_occurrence ticks (content_of r)")
    case None
    with assms occ show ?thesis by (simp add: block_at_def)
  next
    case (Some j)
    have "take (length ?w + j) ?u = ?w @ take j (content_of r)"
      by (subst u) simp
    then have "trim (take (length ?w + j) ?u) = trim (take j (content_of r))"
      using sp by (simp only: trim_spaces_left)
    with Some assms occ show ?thesis by (simp add: block_at_def)
  qed
qed

lemma codeBlockMatch_spec: "map_option trim (codeBlockMatch t) = spec_fenced_block t"
proof (cases "first_occurrence ticks t")
  case None
  then show ?thesis by (simp add: codeBlockMatch_def search_capture_block spec_fenced_block_def)
next
  case (Some i)
  have "startsWith (drop i t) ticks" using Some
  proof (induction t arbitrary: i)
    case Nil
    then show ?case by (simp add: ticks_def)
  next
    case (Cons c cs)
    then show ?case by (cases "startsWith (c # cs) ticks") auto
  qed
  from block_at_trimmed [OF this]
  have "map_option trim (block_at (drop i t)) =
     (case first_occurrence ticks (untag (drop (i + 3) t)) of
        None \<Rightarrow> None
      | Some j \<Rightarrow> Some (trim (take j (untag (drop (i + 3) t)))))"
    by (simp only: drop_drop add.commute [of 3 i])
  with Some show ?thesis
    by (simp add: codeBlockMatch_def search_capture_block spec_fenced_block_def Let_def)
qed

subsection \<open>The array pattern\<close>

lemma spaced_pair_ms:
  assumes "\<not> is_space (of_char b)"
  shows "ms False (Seq (lit [a]) (Seq sp0 (Seq (lit [b]) K))) (p, r) =
     (case spaced_pair (of_char a) (of_char b) r of
        None \<Rightarrow> []
      | Some n \<Rightarrow> ms False K (Some (of_char b), drop n r))"
proof (cases r)
  case Nil
  then show ?thesis by (simp add: ms_lit js_def spaced_pair_def)
next
  case (Cons c r1)
  let ?y = "Seq (lit [b]) K"
  have y: "ms False ?y (q, s) =
      (if startsWith s [of_char b] then ms False K (Some (of_char b), drop 1 s) else [])" for q s
    by (simp add: ms_lit js_def)
  have "ms False ?y (q, d # ds) = []" if "is_space d" for q d ds
  proof -
    from that assms have "\<not> startsWith (d # ds) [of_char b]" by auto
    then show ?thesis by (simp only: y if_False)
  qed
  then have sp: "ms False (Seq sp0 ?y) st = ms False ?y (after_spaces st)" for st
    using greedy_spaces_then [of "ms False ?y" "fst st" "snd st"]
    by (simp add: sp0_def space_atom)
  have after: "ms False ?y (after_spaces (q, s)) =
      (if startsWith (dropWhile is_space s) [of_char b]
       then ms False K (Some (of_char b), drop 1 (dropWhile is_space s)) else [])" for q s
  proof -
    obtain q' where a: "after_spaces (q, s) = (q', dropWhile is_space s)"
      using snd_after_spaces [of q s] by (cases "after_spaces (q, s)") simp
    show ?thesis unfolding a by (rule y)
  qed
  have d: "drop (Suc 0) (dropWhile is_space r1) = drop (Suc (length (takeWhile is_space r1))) r1"
    by (simp add: dropWhile_eq_drop)
  show ?thesis
  proof (cases "c = of_char a")
    case True
    then have "ms False (Seq (lit [a]) (Seq sp0 ?y)) (p, r) = ms False (Seq sp0 ?y) (Some c, r1)"
      by (simp add: Cons ms_lit js_def del: ms.simps(3) add: ms.simps(3) [of False "lit [a]"])
    with True show ?thesis
      by (simp only: sp after) (simp add: Cons spaced_pair_def d)
  next
    case False
    then have "ms False (Seq (lit [a]) (Seq sp0 ?y)) (p, r) = []"
      by (simp add: Cons ms_lit js_def del: ms.simps(3) add: ms.simps(3) [of False "lit [a]"])
    with False show ?thesis by (simp add: Cons spaced_pair_def)
  qed
qed

lemma spaced_pair_bound: "spaced_pair a b r = Some n \<Longrightarrow> n \<le> length r"
proof (cases r)
  case Nil
  assume "spaced_pair a b r = Some n"
  with Nil show ?thesis by (simp add: spaced_pair_def)
next
  case (Cons c r1)
  assume "spaced_pair a b r = Some n"
  with Cons have n: "n = length (takeWhile is_space r1) + 2"
      and s: "startsWith (dropWhile is_space r1) [b]"
    by (auto simp add: spaced_pair_def split: if_splits)
  from s have "0 < length (dropWhile is_space r1)" by (cases "dropWhile is_space r1") simp_all
  moreover have "length (takeWhile is_space r1) + length (dropWhile is_space r1) = length r1"
    by (metis length_append takeWhile_dropWhile_id)
  ultimately have "length (takeWhile is_space r1) < length r1" by linarith
  with n Cons show ?thesis by simp
qed

lemma first_close_bound: "first_close r = Some m \<Longrightarrow> m \<le> length r"
proof (induction r arbitrary: m)
  case Nil
  then show ?case by simp
next
  case (Cons c cs)
  show ?case
  proof (cases "spaced_pair 125 93 (c # cs)")
    case None
    with Cons.prems obtain k where "first_close cs = Some k" "m = Suc k" by auto
    with Cons.IH [of k] show ?thesis by simp
  next
    case (Some n)
    with Cons.prems have "m = n" by simp
    with spaced_pair_bound [OF Some] show ?thesis by simp
  qed
qed

lemma close_ms:
  "ms False (Seq (lit ''}'') (Seq sp0 (Seq (lit '']'') Eps))) (p, r) =
     (case spaced_pair 125 93 r of None \<Rightarrow> [] | Some n \<Rightarrow> [(Some 93, drop n r)])"
  using spaced_pair_ms [of "CHR '']''" "CHR ''}''" Eps p r]
  by (simp add: is_space_def del: ms.simps(3) split: option.splits)

lemma lazy_close:
  "(case concat (map (ms False (Seq (lit ''}'') (Seq sp0 (Seq (lit '']'') Eps))))
            (star_lazy (\<lambda>c. True) (q, r))) of
      [] \<Rightarrow> None
    | e # _ \<Rightarrow> Some (length (snd e))) =
   map_option (\<lambda>m. length r - m) (first_close r)"
proof (induction r arbitrary: q)
  case Nil
  then show ?case by (simp add: close_ms spaced_pair_def del: ms.simps)
next
  case (Cons c cs)
  show ?case
  proof (cases "spaced_pair 125 93 (c # cs)")
    case None
    with Cons [of "Some c"] show ?thesis
      by (simp add: close_ms option.map_comp comp_def del: ms.simps)
  next
    case (Some n)
    then show ?thesis by (simp add: close_ms del: ms.simps)
  qed
qed

lemma array_ms:
  "(case ms False arrayPattern (p, r) of
      [] \<Rightarrow> None
    | e # _ \<Rightarrow> Some (take (length r - length (snd e)) r)) = array_at r"
proof -
  let ?close = "Seq (lit ''}'') (Seq sp0 (Seq (lit '']'') Eps))"
  have shape: "arrayPattern =
      Seq (lit ''['') (Seq sp0 (Seq (lit ''{'') (Seq (LazyStar any_unit) ?close)))"
    by (simp add: arrayPattern_def cat_def)
  have opened: "ms False arrayPattern (p, r) =
      (case spaced_pair 91 123 r of
         None \<Rightarrow> []
       | Some n \<Rightarrow> concat (map (ms False ?close) (star_lazy (\<lambda>c. True) (Some 123, drop n r))))"
    unfolding shape
    using spaced_pair_ms [of "CHR ''{''" "CHR ''[''" "Seq (LazyStar any_unit) ?close" p r]
    by (simp add: is_space_def any_atom split: option.splits del: ms.simps(3)
        add: ms.simps(3) [of False "LazyStar any_unit"])
  show ?thesis
  proof (cases "spaced_pair 91 123 r")
    case None
    then show ?thesis by (simp add: opened array_at_def)
  next
    case (Some n)
    then have n: "n \<le> length r" by (rule spaced_pair_bound)
    define ends where
      "ends = concat (map (ms False ?close) (star_lazy (\<lambda>c. True) (Some 123, drop n r)))"
    from Some have here: "ms False arrayPattern (p, r) = ends"
      by (simp only: opened ends_def option.case)
    have found: "(case ends of [] \<Rightarrow> None | e # _ \<Rightarrow> Some (length (snd e))) =
        map_option (\<lambda>m. length (drop n r) - m) (first_close (drop n r))"
      unfolding ends_def by (rule lazy_close)
    show ?thesis
    proof (cases "first_close (drop n r)")
      case None
      with found have "ends = []" by (cases ends) simp_all
      with None Some show ?thesis by (simp only: here array_at_def) simp
    next
      case (Some m)
      then have "m \<le> length (drop n r)" by (rule first_close_bound)
      with n have l: "length r - (length (drop n r) - m) = n + m" by simp
      from found Some obtain e es where e: "ends = e # es"
          "length (snd e) = length (drop n r) - m"
        by (cases ends) simp_all
      from e l Some \<open>spaced_pair 91 123 r = Some n\<close> show ?thesis
        by (simp only: here array_at_def) simp
    qed
  qed
qed

lemma search_array:
  "(case search False arrayPattern prev rest i of
      None \<Rightarrow> None
    | Some (idx, st') \<Rightarrow>
        Some (take (length rest - (idx - i) - length (snd st')) (drop (idx - i) rest))) =
   spec_array_match rest"
proof (induction rest arbitrary: prev i)
  case Nil
  from array_ms [where p = prev and r = "[]"] show ?case
    by (simp add: array_at_def spaced_pair_def split: list.splits)
next
  case (Cons c cs)
  show ?case
  proof (cases "ms False arrayPattern (prev, c # cs)")
    case Nil
    with array_ms [where p = prev and r = "c # cs"] have none: "array_at (c # cs) = None" by simp
    show ?thesis
    proof (cases "search False arrayPattern (Some c) cs (Suc i)")
      case None
      with Cons.IH [where prev = "Some c" and i = "Suc i"] Nil none show ?thesis by simp
    next
      case (Some res)
      obtain idx st' where res: "res = (idx, st')" by (cases res)
      from search_index_ge [of False arrayPattern "Some c" cs "Suc i" idx st'] Some res
      have "Suc i \<le> idx" by simp
      then have "idx - i = Suc (idx - Suc i)" by simp
      with Cons.IH [where prev = "Some c" and i = "Suc i"] Some res Nil none show ?thesis by simp
    qed
  next
    case (Cons st sts)
    with array_ms [where p = prev and r = "c # cs"]
    have "array_at (c # cs) = Some (take (length (c # cs) - length (snd st)) (c # cs))" by simp
    with Cons show ?thesis by simp
  qed
qed

lemma jsonMatch_spec: "jsonMatch t = spec_array_match t"
  using search_array [where prev = None and rest = t and i = 0]
  by (auto simp add: jsonMatch_def match_whole_def search_from_def arrayPattern_def
      split: option.splits prod.splits)

subsection \<open>From the first opening bracket to the last closing bracket\<close>

lemma indexOf_from_absent: "c \<notin> set xs \<Longrightarrow> indexOf_from c xs i = -1"
  by (induction xs arbitrary: i) simp_all

lemma indexOf_from_first:
  "c \<notin> set pre \<Longrightarrow> indexOf_from c (pre @ c # post) i = int (i + length pre)"
  by (induction pre arbitrary: i) simp_all

lemma lastIndexOf_from_absent: "c \<notin> set xs \<Longrightarrow> lastIndexOf_from c xs i = -1"
  by (induction xs arbitrary: i) (simp_all add: Let_def)

lemma lastIndexOf_from_last:
  "c \<notin> set post \<Longrightarrow> lastIndexOf_from c (pre @ c # post) i = int (i + length pre)"
  by (induction pre arbitrary: i) (simp_all add: Let_def lastIndexOf_from_absent)

lemma lastIndexOf_from_prefix:
  "c \<notin> set post \<Longrightarrow> lastIndexOf_from c (pre @ post) i = lastIndexOf_from c pre i"
  by (induction pre arbitrary: i) (simp_all add: Let_def lastIndexOf_from_absent)

lemma lastIndexOf_from_bound: "lastIndexOf_from c xs i < int (i + length xs) \<or> xs = []"
proof (cases "c \<in> set xs")
  case True
  then obtain pre post where "xs = pre @ c # post" "c \<notin> set post"
    by (meson split_list_last)
  then show ?thesis by (simp add: lastIndexOf_from_last)
next
  case False
  then show ?thesis by (cases xs) (simp_all add: lastIndexOf_from_absent)
qed

lemma bracket_span_spec: "bracket_span t = spec_bracket_span t"
proof (cases "91 \<in> set t")
  case False
  then have e: "dropWhile (\<lambda>c. c \<noteq> 91) t = []" by auto
  show ?thesis unfolding spec_bracket_span_def e Let_def
    using False by (simp add: bracket_span_def indexOf_from_absent)
next
  case True
  then obtain pre rest where t: "t = pre @ 91 # rest" and pre: "91 \<notin> set pre"
    by (meson split_list_first)
  from pre have open_at: "dropWhile (\<lambda>c. c \<noteq> 91) t = 91 # rest"
    unfolding t by (auto simp add: dropWhile_append3)
  have first: "indexOf_from 91 t 0 = int (length pre)"
    unfolding t using indexOf_from_first [OF pre, of rest 0] by simp
  show ?thesis
  proof (cases "93 \<in> set rest")
    case True
    then obtain mid post where rest: "rest = mid @ 93 # post" and post: "93 \<notin> set post"
      by (meson split_list_last)
    have "t = (pre @ 91 # mid) @ 93 # post" by (simp add: t rest)
    then have last: "lastIndexOf_from 93 t 0 = int (length pre + 1 + length mid)"
      using lastIndexOf_from_last [OF post, of "pre @ 91 # mid" 0] by simp
    have "nat (int (length pre + 1 + length mid) + 1 - int (length pre)) = Suc (Suc (length mid))"
      by simp
    then have "slice t (int (length pre)) (int (length pre + 1 + length mid) + 1) = 91 # mid @ [93]"
      unfolding slice_def by (simp add: t rest)
    moreover have "rev (dropWhile (\<lambda>c. c \<noteq> 93) (rev (91 # rest))) = 91 # mid @ [93]"
      using post by (auto simp add: rest dropWhile_append3)
    ultimately show ?thesis using True
      by (simp add: bracket_span_def spec_bracket_span_def open_at first last)
  next
    case False
    then have "93 \<notin> set (91 # rest)" by simp
    then have "lastIndexOf_from 93 t 0 = lastIndexOf_from 93 pre 0"
      unfolding t by (rule lastIndexOf_from_prefix)
    moreover have "lastIndexOf_from 93 pre 0 \<le> int (length pre)"
      using lastIndexOf_from_bound [of 93 pre 0] by auto
    ultimately have "\<not> lastIndexOf_from 93 t 0 > indexOf_from 91 t 0" by (simp add: first)
    with False show ?thesis
      by (simp add: bracket_span_def spec_bracket_span_def open_at)
  qed
qed

subsection \<open>The fallback\<close>

lemma strategy_candidates_spec: "strategy_candidates t = spec_candidates t"
  by (simp add: strategy_candidates_def spec_candidates_def codeBlockMatch_spec jsonMatch_spec
      bracket_span_spec)

text \<open>
  C3. For a successful response, \<open>generateForContact\<close> reads the accumulated text by
  four candidates in order: the whole text; the trimmed content of the first fenced
  code block, which lies between the first fence with its optional \<^verbatim>\<open>json\<close> tag and
  the next fence; the first match of the bracketed array-of-objects pattern; and the
  text from the first \<^verbatim>\<open>[\<close> to the last \<^verbatim>\<open>]\<close>. Each candidate is given on the text
  itself, without the matcher. The first candidate that parses gives the returned
  sequence; when none parses, the parse error is thrown.
\<close>

theorem generateForContact_fallback:
  "generateForContact parse \<lparr>ok = True, http_status = code, errorData = ed, chunks = Some cs\<rparr> =
     (case first_parseable parse
             [Some (concat cs),
              spec_fenced_block (concat cs),
              spec_array_match (concat cs),
              spec_bracket_span (concat cs)] of
        Some v \<Rightarrow> Inr v
      | None \<Rightarrow> Inl (js ''Failed to parse email sequence from response''))"
  by (simp add: generateForContact_def parseAccumulated_first_parseable strategy_candidates_spec)
    (simp add: spec_candidates_def)

lemmas spec_eval = spec_fenced_block_def spec_bracket_span_def array_at_def spaced_pair_def
  untag_def trim_def ticks_def js_def is_space_def Let_def

lemma fenced_reply_block: "spec_fenced_block fenced_reply = Some (js ''[1, 2, 3]'')"
  by (simp add: fenced_reply_def spec_eval)

lemma prose_reply_block: "spec_fenced_block prose_reply = Some (js ''oops'')"
  by (simp add: prose_reply_def spec_eval)

lemma prose_reply_array: "spec_array_match prose_reply = Some (js ''[ {1} ]'')"
  by (simp add: prose_reply_def spec_eval)

lemma bare_reply_block: "spec_fenced_block bare_reply = None"
  by (simp add: bare_reply_def spec_eval)

lemma bare_reply_array: "spec_array_match bare_reply = None"
  by (simp add: bare_reply_def spec_eval)

lemma bare_reply_span: "spec_bracket_span bare_reply = Some (js ''[1, 2, 3]'')"
  by (simp add: bare_reply_def spec_eval)

lemma js_neq: "length a \<noteq> length b \<Longrightarrow> a \<noteq> b"
  by auto

text \<open>
  Five responses: the whole text parses; the fenced block between prose parses; the
  fenced block does not parse and the array of objects does; only the span from the
  first \<^verbatim>\<open>[\<close> to the last \<^verbatim>\<open>]\<close> parses; nothing parses.
\<close>

theorem generateForContact_fallback_witness:
  "generateForContact (parse_exactly (js ''[1, 2, 3]''))
      \<lparr>ok = True, http_status = 200, errorData = None,
       chunks = Some [js ''[1, 2'', js '', 3]'']\<rparr> = Inr (js ''[1, 2, 3]'') \<and>
   generateForContact (parse_exactly (js ''[1, 2, 3]''))
      \<lparr>ok = True, http_status = 200, errorData = None, chunks = Some [fenced_reply]\<rparr> =
     Inr (js ''[1, 2, 3]'') \<and>
   generateForContact (parse_exactly (js ''[ {1} ]''))
      \<lparr>ok = True, http_status = 200, errorData = None, chunks = Some [prose_reply]\<rparr> =
     Inr (js ''[ {1} ]'') \<and>
   generateForContact (parse_exactly (js ''[1, 2, 3]''))
      \<lparr>ok = True, http_status = 200, errorData = None, chunks = Some [bare_reply]\<rparr> =
     Inr (js ''[1, 2, 3]'') \<and>
   generateForContact (parse_exactly (js ''[]''))
      \<lparr>ok = True, http_status = 200, errorData = None, chunks = Some [bare_reply]\<rparr> =
     Inl (js ''Failed to parse email sequence from response'')"
proof -
  have whole: "js ''[1, 2'' @ js '', 3]'' = js ''[1, 2, 3]''" by (simp add: js_def)
  have f: "fenced_reply \<noteq> js ''[1, 2, 3]''"
    by (rule js_neq) (simp add: fenced_reply_def ticks_def js_def)
  have p: "prose_reply \<noteq> js ''[ {1} ]''" "js ''oops'' \<noteq> js ''[ {1} ]''"
    by (rule js_neq, simp add: prose_reply_def ticks_def js_def)+
  have b: "bare_reply \<noteq> js ''[1, 2, 3]''" "bare_reply \<noteq> js ''[]''" "js ''[1, 2, 3]'' \<noteq> js ''[]''"
    by (rule js_neq, simp add: bare_reply_def js_def)+
  have c1: "generateForContact (parse_exactly (js ''[1, 2, 3]''))
      \<lparr>ok = True, http_status = 200, errorData = None,
       chunks = Some [js ''[1, 2'', js '', 3]'']\<rparr> = Inr (js ''[1, 2, 3]'')"
    using generateForContact_fallback
        [of "parse_exactly (js ''[1, 2, 3]'')" 200 None "[js ''[1, 2'', js '', 3]'']"]
    by (simp add: whole parse_exactly_def)
  have c2: "generateForContact (parse_exactly (js ''[1, 2, 3]''))
      \<lparr>ok = True, http_status = 200, errorData = None, chunks = Some [fenced_reply]\<rparr> =
     Inr (js ''[1, 2, 3]'')"
    using generateForContact_fallback [of "parse_exactly (js ''[1, 2, 3]'')" 200 None "[fenced_reply]"]
    by (simp add: parse_exactly_def f fenced_reply_block)
  have c3: "generateForContact (parse_exactly (js ''[ {1} ]''))
      \<lparr>ok = True, http_status = 200, errorData = None, chunks = Some [prose_reply]\<rparr> =
     Inr (js ''[ {1} ]'')"
    using generateForContact_fallback [of "parse_exactly (js ''[ {1} ]'')" 200 None "[prose_reply]"]
    by (simp add: parse_exactly_def p prose_reply_block prose_reply_array)
  have c4: "generateForContact (parse_exactly (js ''[1, 2, 3]''))
      \<lparr>ok = True, http_status = 200, errorData = None, chunks = Some [bare_reply]\<rparr> =
     Inr (js ''[1, 2, 3]'')"
    using generateForContact_fallback [of "parse_exactly (js ''[1, 2, 3]'')" 200 None "[bare_reply]"]
    by (simp add: parse_exactly_def b bare_reply_block bare_reply_array bare_reply_span)
  have c5: "generateForContact (parse_exactly (js ''[]''))
      \<lparr>ok = True, http_status = 200, errorData = None, chunks = Some [bare_reply]\<rparr> =
     Inl (js ''Failed to parse email sequence from response'')"
    using generateForContact_fallback [of "parse_exactly (js ''[]'')" 200 None "[bare_reply]"]
    by (simp add: parse_exactly_def b bare_reply_block bare_reply_array bare_reply_span)
  show ?thesis by (intro conjI) (rule c1 c2 c3 c4 c5)+
qed

lemma map_set_fresh: "k \<notin> fst ` set m \<Longrightarrow> map_set k v m = m @ [(k, v)]"
  by (induction m) auto

lemma status_update_other:
  "k \<notin> GenerationStatus.contactId ` set ss \<Longrightarrow>
   map (\<lambda>s. if GenerationStatus.contactId s = k then f s else s) ss = ss"
  by (induction ss) auto

lemma contactId_pending: "GenerationStatus.contactId (pending_status c) = contact_id c"
  by (simp add: pending_status_def)

lemma contactId_final: "GenerationStatus.contactId (final_status parse fetch c) = contact_id c"
  by (simp add: final_status_def split: sum.splits)

lemma results_of_keys:
  "fst ` set (results_of parse truthy fetch cs) \<subseteq> contact_id ` set cs"
  by (auto simp add: results_of_def map_filter_def split: sum.splits if_splits)

lemma results_of_snoc:
  "results_of parse truthy fetch (cs @ [c]) =
     results_of parse truthy fetch cs @
     (case generateForContact parse (fetch c) of
        Inr es \<Rightarrow> if truthy es then [(contact_id c, es)] else []
      | Inl errorMessage \<Rightarrow> [])"
  by (simp add: results_of_def map_filter_def split: sum.splits)

lemma status_update_at:
  assumes "k \<notin> GenerationStatus.contactId ` set before"
    and "k \<notin> GenerationStatus.contactId ` set after"
    and "GenerationStatus.contactId x = k"
  shows "map (\<lambda>s. if GenerationStatus.contactId s = k then f s else s) (before @ x # after) =
         before @ f x # after"
  using status_update_other [OF assms(1)] status_update_other [OF assms(2)] assms(3) by simp

lemma generate_step_closed:
  assumes "distinct (map contact_id (finished @ c # todo))"
  shows "generate_step parse truthy fetch
           (map (final_status parse fetch) finished @ map pending_status (c # todo),
            results_of parse truthy fetch finished) c =
         (map (final_status parse fetch) (finished @ [c]) @ map pending_status todo,
          results_of parse truthy fetch (finished @ [c]))"
proof -
  let ?F = "map (final_status parse fetch) finished"
  let ?P = "map pending_status todo"
  define g where "g = (pending_status c)\<lparr>status := Generating\<rparr>"
  from assms have fresh1: "contact_id c \<notin> GenerationStatus.contactId ` set ?F"
    by (auto simp add: contactId_final)
  from assms have fresh2: "contact_id c \<notin> GenerationStatus.contactId ` set ?P"
    by (auto simp add: contactId_pending)
  from assms results_of_keys [of parse truthy fetch finished]
  have fresh3: "contact_id c \<notin> fst ` set (results_of parse truthy fetch finished)"
    by auto
  have step1: "map (\<lambda>s. if GenerationStatus.contactId s = contact_id c
                          then s\<lparr>status := Generating\<rparr> else s)
                 (?F @ map pending_status (c # todo)) = ?F @ g # ?P"
    using status_update_at [OF fresh1 fresh2 contactId_pending, of "\<lambda>s. s\<lparr>status := Generating\<rparr>"]
    by (simp add: g_def)
  have gid: "GenerationStatus.contactId g = contact_id c"
    by (simp add: g_def pending_status_def)
  note step2 = status_update_at [OF fresh1 fresh2 gid]
  have unfolded: "generate_step parse truthy fetch
           (?F @ map pending_status (c # todo), results_of parse truthy fetch finished) c =
         (case generateForContact parse (fetch c) of
            Inr es \<Rightarrow>
              (?F @ g\<lparr>status := Complete\<rparr> # ?P,
               if truthy es
               then map_set (contact_id c) es (results_of parse truthy fetch finished)
               else results_of parse truthy fetch finished)
          | Inl errorMessage \<Rightarrow>
              (?F @ g\<lparr>status := Error, error := Some errorMessage\<rparr> # ?P,
               results_of parse truthy fetch finished))"
    unfolding generate_step_def Let_def fst_conv snd_conv step1 step2 ..
  have target: "map (final_status parse fetch) (finished @ [c]) @ ?P =
                ?F @ final_status parse fetch c # ?P"
    by simp
  show ?thesis
  proof (cases "generateForContact parse (fetch c)")
    case (Inl errorMessage)
    have "g\<lparr>status := Error, error := Some errorMessage\<rparr> = final_status parse fetch c"
      by (simp add: g_def pending_status_def final_status_def Inl)
    moreover have "results_of parse truthy fetch (finished @ [c]) =
                   results_of parse truthy fetch finished"
      by (simp add: results_of_snoc Inl)
    ultimately show ?thesis
      by (simp only: unfolded target Inl sum.case)
  next
    case (Inr es)
    have "g\<lparr>status := Complete\<rparr> = final_status parse fetch c"
      by (simp add: g_def pending_status_def final_status_def Inr)
    moreover have "results_of parse truthy fetch (finished @ [c]) =
       (if truthy es then map_set (contact_id c) es (results_of parse truthy fetch finished)
        else results_of parse truthy fetch finished)"
      by (simp add: results_of_snoc Inr map_set_fresh [OF fresh3])
    ultimately show ?thesis
      by (simp only: unfolded target Inr sum.case)
  qed
qed

lemma generate_loop_closed:
  "distinct (map contact_id (finished @ todo)) \<Longrightarrow>
   foldl (generate_step parse truthy fetch)
     (map (final_status parse fetch) finished @ map pending_status todo,
      results_of parse truthy fetch finished) todo =
   (map (final_status parse fetch) (finished @ todo),
    results_of parse truthy fetch (finished @ todo))"
proof (induction todo arbitrary: finished)
  case Nil
  then show ?case by simp
next
  case (Cons c todo)
  from Cons.prems have "distinct (map contact_id ((finished @ [c]) @ todo))" by simp
  from Cons.IH [OF this] generate_step_closed [OF Cons.prems, of parse truthy fetch]
  show ?case by simp
qed

lemma handleGenerate_closed:
  assumes "distinct (map contact_id contacts)" and "contacts \<noteq> []"
  shows "handleGenerate parse truthy fetch contacts =
         Some (map (final_status parse fetch) contacts, results_of parse truthy fetch contacts)"
proof -
  have "results_of parse truthy fetch [] = []" by (simp add: results_of_def map_filter_def)
  with generate_loop_closed [of "[]" contacts parse truthy fetch] assms show ?thesis
    by (simp add: handleGenerate_def Let_def pending_status_def [abs_def])
qed

lemma results_of_Cons:
  "results_of parse truthy fetch (c # cs) =
     (case generateForContact parse (fetch c) of
        Inr es \<Rightarrow> if truthy es then [(contact_id c, es)] else []
      | Inl errorMessage \<Rightarrow> []) @
     results_of parse truthy fetch cs"
  by (simp add: results_of_def map_filter_def split: sum.splits)

lemma results_of_source:
  "(k, es) \<in> set (results_of parse truthy fetch cs) \<Longrightarrow>
   \<exists>d\<in>set cs. generateForContact parse (fetch d) = Inr es \<and> contact_id d = k"
proof (induction cs)
  case Nil
  then show ?case by (simp add: results_of_def map_filter_def)
next
  case (Cons c cs)
  then show ?case
    by (auto simp add: results_of_Cons split: sum.splits if_splits)
qed

lemma results_of_member:
  "d \<in> set cs \<Longrightarrow> generateForContact parse (fetch d) = Inr es \<Longrightarrow> truthy es \<Longrightarrow>
   (contact_id d, es) \<in> set (results_of parse truthy fetch cs)"
proof (induction cs)
  case Nil
  then show ?case by simp
next
  case (Cons c cs)
  then show ?case
    by (auto simp add: results_of_Cons split: sum.splits if_splits)
qed

lemma results_of_distinct:
  "distinct (map contact_id cs) \<Longrightarrow> distinct (map fst (results_of parse truthy fetch cs))"
proof (induction cs rule: rev_induct)
  case Nil
  then show ?case by (simp add: results_of_def map_filter_def)
next
  case (snoc c cs)
  from snoc.prems results_of_keys [of parse truthy fetch cs]
  have "contact_id c \<notin> fst ` set (results_of parse truthy fetch cs)" by auto
  with snoc show ?case
    by (auto simp add: results_of_snoc split: sum.splits)
qed

lemma final_status_done:
  "status (final_status parse fetch d) = Complete \<or> status (final_status parse fetch d) = Error"
  by (simp add: final_status_def split: sum.splits)

text \<open>
  C4. For every list of selected contacts with distinct ids and every contact of it
  whose generation throws: the loop reaches its end with a status for every contact;
  that contact's status is \<open>Error\<close> with the message thrown; the contact has no entry
  in the result map; no status is left pending or generating; and every contact whose
  generation returned a truthy value has its entry in the result map.
\<close>

theorem batch_continues_after_failure:
  assumes "distinct (map contact_id contacts)"
    and "c \<in> set contacts"
    and "generateForContact parse (fetch c) = Inl msg"
  shows "handleGenerate parse truthy fetch contacts =
           Some (map (final_status parse fetch) contacts, results_of parse truthy fetch contacts) \<and>
         final_status parse fetch c =
           \<lparr>contactId = contact_id c, contactName = full_name c, status = Error,
            error = Some msg\<rparr> \<and>
         map_of (results_of parse truthy fetch contacts) (contact_id c) = None \<and>
         list_all (\<lambda>s. status s = Complete \<or> status s = Error)
           (map (final_status parse fetch) contacts) \<and>
         (\<forall>d\<in>set contacts. \<forall>es.
            generateForContact parse (fetch d) = Inr es \<and> truthy es \<longrightarrow>
            map_of (results_of parse truthy fetch contacts) (contact_id d) = Some es)"
proof -
  from assms(2) have "contacts \<noteq> []" by auto
  with assms(1) have closed: "handleGenerate parse truthy fetch contacts =
      Some (map (final_status parse fetch) contacts, results_of parse truthy fetch contacts)"
    by (rule handleGenerate_closed)
  have failed: "final_status parse fetch c =
      \<lparr>contactId = contact_id c, contactName = full_name c, status = Error, error = Some msg\<rparr>"
    by (simp add: final_status_def assms(3))
  from assms(1) have inj: "inj_on contact_id (set contacts)" by (simp add: distinct_map)
  have "contact_id c \<notin> fst ` set (results_of parse truthy fetch contacts)"
  proof
    assume "contact_id c \<in> fst ` set (results_of parse truthy fetch contacts)"
    then obtain d es where d: "d \<in> set contacts" "generateForContact parse (fetch d) = Inr es"
        "contact_id d = contact_id c"
      by (auto dest: results_of_source)
    with inj assms(2) have "d = c" by (auto dest: inj_onD)
    with d assms(3) show False by simp
  qed
  then have omitted: "map_of (results_of parse truthy fetch contacts) (contact_id c) = None"
    by (simp add: map_of_eq_None_iff)
  have all_done: "list_all (\<lambda>s. status s = Complete \<or> status s = Error)
      (map (final_status parse fetch) contacts)"
    by (simp add: list_all_iff final_status_done)
  have others: "\<forall>d\<in>set contacts. \<forall>es.
      generateForContact parse (fetch d) = Inr es \<and> truthy es \<longrightarrow>
      map_of (results_of parse truthy fetch contacts) (contact_id d) = Some es"
  proof (intro ballI allI impI)
    fix d es assume "d \<in> set contacts"
      and "generateForContact parse (fetch d) = Inr es \<and> truthy es"
    then have "(contact_id d, es) \<in> set (results_of parse truthy fetch contacts)"
      by (auto intro: results_of_member)
    with results_of_distinct [OF assms(1)]
    show "map_of (results_of parse truthy fetch contacts) (contact_id d) = Some es"
      by (rule map_of_is_SomeI)
  qed
  from closed failed omitted all_done others show ?thesis by blast
qed

theorem batch_continues_after_failure_witness:
  "distinct (map contact_id [ann_ceo, bob_educator, cy_director]) \<and>
   generateForContact sample_parse (sample_fetch bob_educator) = Inl (js ''Credit balance too low'') \<and>
   handleGenerate sample_parse sample_truthy sample_fetch [ann_ceo, bob_educator, cy_director] =
     Some ([\<lparr>contactId = js ''ANN-A'', contactName = js ''Ann Ames'', status = Complete,
              error = None\<rparr>,
            \<lparr>contactId = js ''BOB-B'', contactName = js ''Bob Bell'', status = Error,
              error = Some (js ''Credit balance too low'')\<rparr>,
            \<lparr>contactId = js ''CY-C'', contactName = js ''Cy Cole'', status = Complete,
              error = None\<rparr>],
           [(js ''ANN-A'', [1, 2, 3]), (js ''CY-C'', [1, 2, 3])])"
proof -
  have d: "distinct (map contact_id [ann_ceo, bob_educator, cy_director])"
    by (simp add: ann_ceo_def bob_educator_def cy_director_def js_eq_iff)
  have bob: "generateForContact sample_parse (sample_fetch bob_educator) =
             Inl (js ''Credit balance too low'')"
    by (simp add: generateForContact_def sample_fetch_def bob_educator_def errorMessage_of_def
        js_eq_iff) (simp add: js_def)
  have ok_gen: "generateForContact sample_parse
          \<lparr>ok = True, http_status = 200, errorData = None,
           chunks = Some [js ''[1, 2'', js '', 3]'']\<rparr> = Inr [1, 2, 3]"
    by (simp add: generateForContact_def parseAccumulated_def sample_parse_def js_def)
  have ann: "generateForContact sample_parse (sample_fetch ann_ceo) = Inr [1, 2, 3]"
    by (simp add: sample_fetch_def ann_ceo_def js_eq_iff ok_gen)
  have cy: "generateForContact sample_parse (sample_fetch cy_director) = Inr [1, 2, 3]"
    by (simp add: sample_fetch_def cy_director_def js_eq_iff ok_gen)
  have closed: "map (final_status sample_parse sample_fetch) [ann_ceo, bob_educator, cy_director] =
      [\<lparr>contactId = js ''ANN-A'', contactName = js ''Ann Ames'', status = Complete, error = None\<rparr>,
       \<lparr>contactId = js ''BOB-B'', contactName = js ''Bob Bell'', status = Error,
         error = Some (js ''Credit balance too low'')\<rparr>,
       \<lparr>contactId = js ''CY-C'', contactName = js ''Cy Cole'', status = Complete, error = None\<rparr>]"
    by (simp add: final_status_def ann bob cy) (simp add: ann_ceo_def bob_educator_def cy_director_def)
  have res: "results_of sample_parse sample_truthy sample_fetch [ann_ceo, bob_educator, cy_director] =
      [(js ''ANN-A'', [1, 2, 3]), (js ''CY-C'', [1, 2, 3])]"
    by (simp add: results_of_def map_filter_def ann bob cy sample_truthy_def)
       (simp add: ann_ceo_def cy_director_def)
  have m: "bob_educator \<in> set [ann_ceo, bob_educator, cy_director]" by simp
  note main = batch_continues_after_failure
    [where parse = sample_parse and fetch = sample_fetch and truthy = sample_truthy
       and c = bob_educator, OF d m bob, THEN conjunct1]
  show ?thesis by (intro conjI d bob) (simp only: main closed res)
qed

section \<open>An example sequence that passes\<close>

subsection \<open>Skipping a prefix no match can start in\<close>

lemma star_greedy_first:
  "st' \<in> set (star_greedy p (prev, c # cs)) \<Longrightarrow> st' = (prev, c # cs) \<or> p c"
  by (auto split: if_splits)

lemma star_lazy_first:
  "st' \<in> set (star_lazy p (prev, c # cs)) \<Longrightarrow> st' = (prev, c # cs) \<or> p c"
  by (auto split: if_splits)

lemma ms_first:
  "st' \<in> set (ms ic r (prev, c # cs)) \<Longrightarrow>
   (st' = (prev, c # cs) \<and> nullable r) \<or> first_ok ic r c"
proof (induction r arbitrary: st')
  case (Seq r1 r2)
  from Seq.prems obtain m where m: "m \<in> set (ms ic r1 (prev, c # cs))"
      and s: "st' \<in> set (ms ic r2 m)" by auto
  from Seq.IH(1) [OF m] show ?case
  proof
    assume a: "m = (prev, c # cs) \<and> nullable r1"
    with s have "st' \<in> set (ms ic r2 (prev, c # cs))" by simp
    from Seq.IH(2) [OF this] a show ?thesis by (simp, blast)
  next
    assume "first_ok ic r1 c"
    then show ?thesis by simp
  qed
next
  case (Alt r1 r2)
  from Alt.prems have "st' \<in> set (ms ic r1 (prev, c # cs)) \<or> st' \<in> set (ms ic r2 (prev, c # cs))"
    by simp
  then show ?case
  proof
    assume "st' \<in> set (ms ic r1 (prev, c # cs))"
    from Alt.IH(1) [OF this] show ?thesis by (simp, blast)
  next
    assume "st' \<in> set (ms ic r2 (prev, c # cs))"
    from Alt.IH(2) [OF this] show ?thesis by (simp, blast)
  qed
next
  case (Opt r)
  from Opt.prems have "st' \<in> set (ms ic r (prev, c # cs)) \<or> st' = (prev, c # cs)" by auto
  then show ?case
  proof
    assume "st' \<in> set (ms ic r (prev, c # cs))"
    from Opt.IH [OF this] show ?thesis by (simp, blast)
  next
    assume "st' = (prev, c # cs)"
    then show ?thesis by simp
  qed
next
  case (Star a)
  then show ?case using star_greedy_first [of st' "atom_ok ic a" prev c cs] by auto
next
  case (LazyStar a)
  then show ?case using star_lazy_first [of st' "atom_ok ic a" prev c cs] by auto
qed (auto split: if_splits)

lemma ms_at_end:
  "st' \<in> set (ms ic r (prev, [])) \<Longrightarrow> st' = (prev, []) \<and> nullable r"
proof (induction r arbitrary: st')
  case (Seq r1 r2)
  from Seq.prems obtain m where m: "m \<in> set (ms ic r1 (prev, []))"
      and s: "st' \<in> set (ms ic r2 m)" by auto
  from Seq.IH(1) [OF m] have m': "m = (prev, [])" and n1: "nullable r1" by simp_all
  from s m' have "st' \<in> set (ms ic r2 (prev, []))" by simp
  from Seq.IH(2) [OF this] n1 show ?case by simp
next
  case (Alt r1 r2)
  from Alt.prems have "st' \<in> set (ms ic r1 (prev, [])) \<or> st' \<in> set (ms ic r2 (prev, []))"
    by simp
  then show ?case
  proof
    assume "st' \<in> set (ms ic r1 (prev, []))"
    from Alt.IH(1) [OF this] show ?thesis by simp
  next
    assume "st' \<in> set (ms ic r2 (prev, []))"
    from Alt.IH(2) [OF this] show ?thesis by simp
  qed
next
  case (Opt r)
  from Opt.prems have "st' \<in> set (ms ic r (prev, [])) \<or> st' = (prev, [])" by auto
  then show ?case
  proof
    assume "st' \<in> set (ms ic r (prev, []))"
    from Opt.IH [OF this] show ?thesis by simp
  next
    assume "st' = (prev, [])"
    then show ?thesis by simp
  qed
qed (auto split: if_splits)

lemma ms_no_start:
  assumes "\<not> nullable r" and "\<not> first_ok ic r c"
  shows "ms ic r (prev, c # cs) = []"
proof (rule ccontr)
  assume "ms ic r (prev, c # cs) \<noteq> []"
  then have "hd (ms ic r (prev, c # cs)) \<in> set (ms ic r (prev, c # cs))" by simp
  from ms_first [OF this] assms show False by auto
qed

lemma search_skip:
  assumes "\<not> nullable r" and "list_all (\<lambda>c. \<not> first_ok ic r c) pre"
  shows "search ic r prev (pre @ rest) i =
         search ic r (if pre = [] then prev else Some (last pre)) rest (i + length pre)"
  using assms(2)
proof (induction pre arbitrary: prev i)
  case Nil
  then show ?case by simp
next
  case (Cons c pre)
  from Cons.prems have "\<not> first_ok ic r c" and rest: "list_all (\<lambda>c. \<not> first_ok ic r c) pre"
    by simp_all
  with assms(1) have "ms ic r (prev, c # (pre @ rest)) = []" by (intro ms_no_start)
  then have "search ic r prev ((c # pre) @ rest) i = search ic r (Some c) (pre @ rest) (Suc i)"
    by simp
  also have "\<dots> = search ic r (if pre = [] then Some c else Some (last pre)) rest (Suc i + length pre)"
    by (rule Cons.IH [OF rest])
  finally show ?case by simp
qed

subsection \<open>Padded bodies\<close>

lemma filler_Suc: "filler (Suc n) = 120 # 32 # filler n"
  by (simp add: filler_def js_def)

lemma filler_units: "P 120 \<Longrightarrow> P 32 \<Longrightarrow> list_all P (filler n)"
  by (induction n) (simp_all add: filler_Suc, simp add: filler_def)

lemma last_filler: "last (filler (Suc n)) = 32"
  by (induction n) (simp_all add: filler_Suc, simp add: filler_def)

lemma toLowerCase_filler: "toLowerCase (filler n @ t) = filler n @ toLowerCase t"
  by (induction n) (simp_all add: filler_Suc, simp_all add: filler_def toLowerCase_def lower_unit_def)

lemma runs_filler: "runs False (filler n @ t) = n + runs False t"
  by (induction n) (simp_all add: filler_Suc is_space_def, simp add: filler_def)

lemma search_None_index:
  "(search ic r prev rest i = None) = (search ic r prev rest 0 = None)"
  by (simp add: search_None)

lemma exec_after_filler:
  assumes "\<not> nullable (fst re)"
    and "\<not> first_ok (snd re) (fst re) 120" and "\<not> first_ok (snd re) (fst re) 32"
  shows "(exec_index re (filler (Suc n) @ rest) = None) =
         (search (snd re) (fst re) (Some 32) rest 0 = None)"
proof -
  have units: "list_all (\<lambda>c. \<not> first_ok (snd re) (fst re) c) (filler (Suc n))"
    using assms(2,3) by (rule filler_units)
  have ne: "filler (Suc n) \<noteq> []" by (simp add: filler_Suc)
  have "search (snd re) (fst re) None (filler (Suc n) @ rest) 0 =
        search (snd re) (fst re) (Some 32) rest (0 + length (filler (Suc n)))"
    using search_skip [OF assms(1) units, of None rest 0] ne by (simp only: if_False last_filler)
  then show ?thesis
    using search_None_index [of "snd re" "fst re" "Some 32" rest "0 + length (filler (Suc n))"]
    by (simp add: exec_index_def search_from_def)
qed

lemma test_after_filler:
  assumes "skips_filler re"
  shows "test re (filler (Suc n) @ rest) = (search (snd re) (fst re) (Some 32) rest 0 \<noteq> None)"
proof -
  from assms have "(exec_index re (filler (Suc n) @ rest) = None) =
         (search (snd re) (fst re) (Some 32) rest 0 = None)"
    unfolding skips_filler_def by (intro exec_after_filler) simp_all
  then show ?thesis unfolding test_def by (rule arg_cong [of _ _ Not])
qed

lemma tests_after_filler:
  assumes "list_all skips_filler ps"
  shows "list_ex (\<lambda>p. test p (filler (Suc n) @ rest)) ps =
         list_ex (\<lambda>p. search (snd p) (fst p) (Some 32) rest 0 \<noteq> None) ps"
  using assms
proof (induction ps)
  case Nil
  then show ?case by simp
next
  case (Cons p ps)
  then have "skips_filler p" and "list_all skips_filler ps" by simp_all
  with Cons.IH show ?case
    by (simp only: list_ex_Cons_iff test_after_filler)
qed

lemma execs_after_filler:
  assumes "list_all skips_filler ps"
  shows "list_all (\<lambda>p. exec_index p (filler (Suc n) @ rest) = None) ps =
         list_all (\<lambda>p. search (snd p) (fst p) (Some 32) rest 0 = None) ps"
  using assms
proof (induction ps)
  case Nil
  then show ?case by simp
next
  case (Cons p ps)
  then have p: "skips_filler p" and "list_all skips_filler ps" by simp_all
  from p have "(exec_index p (filler (Suc n) @ rest) = None) =
         (search (snd p) (fst p) (Some 32) rest 0 = None)"
    unfolding skips_filler_def by (intro exec_after_filler) simp_all
  with Cons.IH [OF \<open>list_all skips_filler ps\<close>] show ?case
    by (simp only: list_all_Cons_iff)
qed

lemmas skip_eval = skips_filler_def cat_def lit_def js_def sp1_def sp0_def dashes_def
  unit_eq_def canon_def is_space_def

lemma skip_uncontracted: "list_all skips_filler uncontractedPatterns"
  by (simp add: uncontractedPatterns_def skip_eval)

lemma skip_class: "list_all skips_filler classPatterns"
  by (simp add: classPatterns_def skip_eval)

lemma skip_we: "skips_filler wePattern"
  by (simp add: wePattern_def skip_eval)

lemma skip_cta: "list_all skips_filler bannedCtaPatterns"
  by (simp add: bannedCtaPatterns_def weekday_def apos_def skip_eval)

lemma skip_warmth: "list_all skips_filler warmthPatterns"
  by (simp add: warmthPatterns_def apos_def skip_eval)

lemma skip_banned: "list_all skips_filler (map fst bannedPhrases)"
  by (simp add: bannedPhrases_def skip_eval)

subsection \<open>Validating a padded body\<close>

lemmas rx_eval2 = cat_def lit_def js_def is_word_def is_space_def canon_def unit_eq_def
  at_boundary_def sp1_def sp0_def dashes_def

lemma includes_skip:
  "list_all (\<lambda>c. c \<noteq> k) pre \<Longrightarrow>
   includes_str (pre @ rest) (k # ps) = includes_str rest (k # ps)"
  by (induction pre) simp_all

lemma split_lines_skip:
  "list_all (\<lambda>c. c \<noteq> 10) pre \<Longrightarrow> split_lines cur (pre @ rest) = split_lines (cur @ pre) rest"
  by (induction pre arbitrary: cur) simp_all

lemma trim_clean:
  assumes "s \<noteq> []" and "\<not> is_space (hd s)" and "\<not> is_space (last s)"
  shows "trim s = s"
proof -
  from assms(1,2) have "dropWhile is_space s = s" by (cases s) simp_all
  moreover from assms(1,3) have "dropWhile is_space (rev s) = rev s"
    by (cases "rev s") (simp_all add: last_rev [symmetric] hd_rev)
  ultimately show ?thesis by (simp add: trim_def)
qed

lemma signature_after:
  assumes "list_all (\<lambda>c. c \<noteq> 10) pre" and "pre \<noteq> []" and "\<not> is_space (hd pre)"
  shows "hasValidSignature (pre @ [10] @ js ''Dalton'')"
proof -
  let ?s = "pre @ [10] @ js ''Dalton''"
  have "last ?s = 110" by (simp add: js_def)
  then have "\<not> is_space (last ?s)" by (simp add: is_space_def)
  moreover have "hd ?s = hd pre" using assms(2) by simp
  ultimately have t: "trim ?s = ?s" using assms(3) by (intro trim_clean) simp_all
  have "split_lines [] ?s = split_lines pre ([10] @ js ''Dalton'')"
    using split_lines_skip [OF assms(1), of "[]"] by simp
  also have "\<dots> = [pre, js ''Dalton'']" by (simp add: js_def)
  finally have l: "split_lines [] ?s = [pre, js ''Dalton'']" .
  have "trim (js ''Dalton'') = js ''Dalton''"
    by (intro trim_clean) (simp_all add: js_def is_space_def)
  moreover have "toLowerCase (js ''Dalton'') = js ''dalton''"
    by (simp add: toLowerCase_def lower_unit_def js_def)
  ultimately show ?thesis
    unfolding hasValidSignature_def Let_def t l by simp
qed

lemma hasValidWeTiming_quiet:
  assumes "list_all (\<lambda>p. exec_index p s = None) classPatterns"
    and "exec_index wePattern (toLowerCase s) = None"
  shows "hasValidWeTiming s"
proof -
  from assms(1) have "no_introduction s" by (simp only: no_introduction_exec)
  then have "classPosition_of s = -1" by (rule classPosition_none)
  moreover from assms(2) have "search_from (toLowerCase s) wePattern (None, toLowerCase s) = None"
    by (simp add: exec_index_def)
  then have "weLoop (toLowerCase s) (-1) (None, toLowerCase s)" by (rule weLoop_done)
  ultimately show ?thesis by (simp add: hasValidWeTiming_def Let_def)
qed

lemma validateEmail_padded:
  assumes b: "body e = filler (Suc n) @ tail" and lower: "toLowerCase tail = ltail"
    and words: "150 \<le> Suc n + runs False tail" "Suc n + runs False tail \<le> 200"
    and c2: "\<not> list_ex (\<lambda>p. search (snd p) (fst p) (Some 32) tail 0 \<noteq> None) uncontractedPatterns"
    and c3: "\<not> includes_str ltail (js ''klas'')"
    and c4a: "list_all (\<lambda>p. search (snd p) (fst p) (Some 32) tail 0 = None) classPatterns"
    and c4b: "search (snd wePattern) (fst wePattern) (Some 32) ltail 0 = None"
    and c5: "\<not> list_ex (\<lambda>p. search (snd p) (fst p) (Some 32) ltail 0 \<noteq> None) bannedCtaPatterns"
    and c6: "email_number e \<noteq> 3 \<or>
             list_ex (\<lambda>p. search (snd p) (fst p) (Some 32) ltail 0 \<noteq> None) warmthPatterns"
    and c7: "\<not> list_ex (\<lambda>p. search (snd p) (fst p) (Some 32) tail 0 \<noteq> None) (map fst bannedPhrases)"
    and c8: "hasValidSignature (filler (Suc n) @ tail)"
    and c9: "\<not> startsWith (toLowerCase (subject_line e)) (js ''re:'')"
  shows "passed (validateEmail e)"
proof -
  have low: "toLowerCase (body e) = filler (Suc n) @ ltail"
    by (simp only: b toLowerCase_filler lower)
  have k1: "150 \<le> countWords (body e) \<and> countWords (body e) \<le> 200"
    using words by (simp add: countWords_runs b runs_filler)
  have k2: "\<not> hasContractionIssues (body e)"
    unfolding hasContractionIssues_def b tests_after_filler [OF skip_uncontracted] by (rule c2)
  have "\<not> includes_str (toLowerCase (body e)) (js ''klas'')"
  proof -
    have "list_all (\<lambda>c. c \<noteq> 107) (filler (Suc n))" by (rule filler_units) simp_all
    from includes_skip [OF this, of ltail "js ''las''"] c3 show ?thesis
      by (simp add: low js_def)
  qed
  then have k3: "hasValidKlasIntro (body e)" by (rule hasValidKlasIntro_unmentioned)
  have w: "exec_index wePattern (filler (Suc n) @ ltail) = None"
    using c4b skip_we exec_after_filler [of wePattern n ltail] by (simp add: skips_filler_def)
  have k4: "hasValidWeTiming (body e)"
  proof (rule hasValidWeTiming_quiet)
    show "list_all (\<lambda>p. exec_index p (body e) = None) classPatterns"
      unfolding b execs_after_filler [OF skip_class] by (rule c4a)
    show "exec_index wePattern (toLowerCase (body e)) = None"
      unfolding low by (rule w)
  qed
  have k5: "hasValidCta (body e)"
    unfolding hasValidCta_def Let_def low tests_after_filler [OF skip_cta] by (rule c5)
  have k6: "hasWarmthPhrase (body e) (email_number e)"
    unfolding hasWarmthPhrase_def Let_def low tests_after_filler [OF skip_warmth]
    using c6 by auto
  have "\<not> list_ex (\<lambda>p. test p (body e)) (map fst bannedPhrases)"
    unfolding b tests_after_filler [OF skip_banned] by (rule c7)
  then have k7: "length (hasBannedPhrases (body e)) = 0"
    by (simp add: hasBannedPhrases_def list_ex_iff filter_empty_conv)
  have k8: "hasValidSignature (body e)" unfolding b by (rule c8)
  from k1 k2 k3 k4 k5 k6 k7 k8 c9 have "list_all id (check_values e)"
    by (simp add: check_values_def)
  then have "failures (validateEmail e) = []" by (simp only: validateEmail_failures_empty)
  then show ?thesis by (simp add: validateEmail_def Let_def)
qed

subsection \<open>The example emails\<close>

lemma plain_body_split: "plain_body = filler (Suc 148) @ plain_tail"
  by (simp add: plain_body_def plain_tail_def)

lemma warm_body_split: "warm_body = filler (Suc 142) @ warm_tail"
  by (simp add: warm_body_def warm_tail_def)

lemma plain_lower: "toLowerCase plain_tail = [10] @ js ''dalton''"
  by (simp add: plain_tail_def toLowerCase_def lower_unit_def js_def)

lemma warm_lower: "toLowerCase warm_tail = js ''i hope this data is useful'' @ [10] @ js ''dalton''"
  by (simp add: warm_tail_def toLowerCase_def lower_unit_def js_def)

lemma filler_start: "filler (Suc n) @ t \<noteq> [] \<and> \<not> is_space (hd (filler (Suc n) @ t))"
  by (simp only: filler_Suc) (simp add: is_space_def)

lemma plain_signature: "hasValidSignature (filler (Suc 148) @ plain_tail)"
proof -
  have "list_all (\<lambda>c. c \<noteq> 10) (filler (Suc 148))" by (rule filler_units) simp_all
  moreover from filler_start [of 148 "[]"] have "filler (Suc 148) \<noteq> []"
    and "\<not> is_space (hd (filler (Suc 148)))" by simp_all
  ultimately have "hasValidSignature (filler (Suc 148) @ [10] @ js ''Dalton'')"
    by (rule signature_after)
  then show ?thesis by (simp only: plain_tail_def)
qed

lemma warm_signature: "hasValidSignature (filler (Suc 142) @ warm_tail)"
proof -
  let ?pre = "filler (Suc 142) @ js ''i hope this data is useful''"
  have "list_all (\<lambda>c. c \<noteq> 10) (filler (Suc 142))" by (rule filler_units) simp_all
  moreover have "list_all (\<lambda>c. c \<noteq> 10) (js ''i hope this data is useful'')"
    by (simp add: js_def)
  ultimately have "list_all (\<lambda>c. c \<noteq> 10) ?pre" by (simp only: list_all_append simp_thms)
  moreover from filler_start [of 142 "js ''i hope this data is useful''"]
  have "?pre \<noteq> []" and "\<not> is_space (hd ?pre)" by simp_all
  ultimately have "hasValidSignature (?pre @ [10] @ js ''Dalton'')"
    by (rule signature_after)
  then show ?thesis by (simp only: warm_tail_def append_assoc)
qed

lemma plain_passes:
  assumes "body e = plain_body" and "email_number e \<noteq> 3"
    and "\<not> startsWith (toLowerCase (subject_line e)) (js ''re:'')"
  shows "passed (validateEmail e)"
proof (rule validateEmail_padded [where n = 148 and tail = plain_tail and ltail = "[10] @ js ''dalton''"])
  show "body e = filler (Suc 148) @ plain_tail" by (simp only: assms(1) plain_body_split)
  show "toLowerCase plain_tail = [10] @ js ''dalton''" by (rule plain_lower)
  show "150 \<le> Suc 148 + runs False plain_tail" "Suc 148 + runs False plain_tail \<le> 200"
    by (simp_all add: plain_tail_def js_def is_space_def)
  show "\<not> list_ex (\<lambda>p. search (snd p) (fst p) (Some 32) plain_tail 0 \<noteq> None) uncontractedPatterns"
    by (simp add: plain_tail_def uncontractedPatterns_def rx_eval2)
  show "\<not> includes_str ([10] @ js ''dalton'') (js ''klas'')" by (simp add: js_def)
  show "list_all (\<lambda>p. search (snd p) (fst p) (Some 32) plain_tail 0 = None) classPatterns"
    by (simp add: plain_tail_def classPatterns_def rx_eval2)
  show "search (snd wePattern) (fst wePattern) (Some 32) ([10] @ js ''dalton'') 0 = None"
    by (simp add: wePattern_def rx_eval2)
  show "\<not> list_ex (\<lambda>p. search (snd p) (fst p) (Some 32) ([10] @ js ''dalton'') 0 \<noteq> None)
          bannedCtaPatterns"
    by (simp add: bannedCtaPatterns_def weekday_def apos_def rx_eval2)
  show "email_number e \<noteq> 3 \<or>
        list_ex (\<lambda>p. search (snd p) (fst p) (Some 32) ([10] @ js ''dalton'') 0 \<noteq> None) warmthPatterns"
    using assms(2) by simp
  show "\<not> list_ex (\<lambda>p. search (snd p) (fst p) (Some 32) plain_tail 0 \<noteq> None) (map fst bannedPhrases)"
    by (simp add: plain_tail_def bannedPhrases_def rx_eval2)
  show "hasValidSignature (filler (Suc 148) @ plain_tail)" by (rule plain_signature)
  show "\<not> startsWith (toLowerCase (subject_line e)) (js ''re:'')" by (rule assms(3))
qed

lemma warm_passes:
  assumes "body e = warm_body"
    and "\<not> startsWith (toLowerCase (subject_line e)) (js ''re:'')"
  shows "passed (validateEmail e)"
proof (rule validateEmail_padded [where n = 142 and tail = warm_tail
      and ltail = "js ''i hope this data is useful'' @ [10] @ js ''dalton''"])
  show "body e = filler (Suc 142) @ warm_tail" by (simp only: assms(1) warm_body_split)
  show "toLowerCase warm_tail = js ''i hope this data is useful'' @ [10] @ js ''dalton''"
    by (rule warm_lower)
  show "150 \<le> Suc 142 + runs False warm_tail" "Suc 142 + runs False warm_tail \<le> 200"
    by (simp_all add: warm_tail_def js_def is_space_def)
  show "\<not> list_ex (\<lambda>p. search (snd p) (fst p) (Some 32) warm_tail 0 \<noteq> None) uncontractedPatterns"
    by (simp add: warm_tail_def uncontractedPatterns_def rx_eval2)
  show "\<not> includes_str (js ''i hope this data is useful'' @ [10] @ js ''dalton'') (js ''klas'')"
    by (simp add: js_def)
  show "list_all (\<lambda>p. search (snd p) (fst p) (Some 32) warm_tail 0 = None) classPatterns"
    by (simp add: warm_tail_def classPatterns_def rx_eval2)
  show "search (snd wePattern) (fst wePattern) (Some 32)
          (js ''i hope this data is useful'' @ [10] @ js ''dalton'') 0 = None"
    by (simp add: wePattern_def rx_eval2)
  show "\<not> list_ex (\<lambda>p. search (snd p) (fst p) (Some 32)
            (js ''i hope this data is useful'' @ [10] @ js ''dalton'') 0 \<noteq> None)
          bannedCtaPatterns"
    by (simp add: bannedCtaPatterns_def weekday_def apos_def rx_eval2)
  show "email_number e \<noteq> 3 \<or>
        list_ex (\<lambda>p. search (snd p) (fst p) (Some 32)
            (js ''i hope this data is useful'' @ [10] @ js ''dalton'') 0 \<noteq> None) warmthPatterns"
    by (simp add: warmthPatterns_def apos_def rx_eval2)
  show "\<not> list_ex (\<lambda>p. search (snd p) (fst p) (Some 32) warm_tail 0 \<noteq> None) (map fst bannedPhrases)"
    by (simp add: warm_tail_def bannedPhrases_def rx_eval2)
  show "hasValidSignature (filler (Suc 142) @ warm_tail)" by (rule warm_signature)
  show "\<not> startsWith (toLowerCase (subject_line e)) (js ''re:'')" by (rule assms(2))
qed

lemma valid_first_passes: "passed (validateEmail valid_first)"
  by (rule plain_passes)
    (simp_all add: valid_first_def, simp add: toLowerCase_def lower_unit_def js_def)

lemma valid_second_passes: "passed (validateEmail valid_second)"
  by (rule plain_passes)
    (simp_all add: valid_second_def, simp add: toLowerCase_def lower_unit_def js_def)

lemma valid_third_passes: "passed (validateEmail valid_third)"
  by (rule warm_passes)
    (simp_all add: valid_third_def, simp add: toLowerCase_def lower_unit_def js_def)

text \<open>
  Three concrete emails that pass every check of \<open>validateEmail\<close>: in the order timing,
  challenge, outcome the sequence passes; with the first two swapped it fails with the
  angle-order message.
\<close>

theorem validateSequence_angle_order_witness:
  "map angle [valid_first, valid_second, valid_third] = [Timing, Challenge, Outcome] \<and>
   passed (validateEmail valid_first) \<and>
   passed (validateEmail valid_second) \<and>
   passed (validateEmail valid_third) \<and>
   passed (validateSequence [valid_first, valid_second, valid_third]) \<and>
   \<not> passed (validateSequence [valid_second, valid_first, valid_third]) \<and>
   js ''Angle order incorrect: expected timing->challenge->outcome, got challenge->timing->outcome''
     \<in> set (failures (validateSequence [valid_second, valid_first, valid_third]))"
proof -
  have a: "angle valid_first = Timing" "angle valid_second = Challenge" "angle valid_third = Outcome"
    by (simp_all add: valid_first_def valid_second_def valid_third_def)
  from validateSequence_angle_order [OF a] a
    valid_first_passes valid_second_passes valid_third_passes
  show ?thesis by simp
qed

end
